theory Spec2Isabelle
  imports Main "HOL-Library.Word"
begin

unbundle bit_operations_syntax

section \<open>Bytes, text and formatting\<close>

text \<open>
  A Go \<open>byte\<close> is an 8-bit word. Everything written to an \<open>io.Writer\<close> is a byte
  string, modelled as a \<open>string\<close> (a list of 8-bit characters). Go's \<open>int\<close> is
  modelled as \<open>int\<close>: addresses and indices of the viewer stay far below \<open>2 ^ 63\<close>.
\<close>

type_synonym byte = "8 word"

definition byte_char :: "byte \<Rightarrow> char" where
  "byte_char b = char_of (unat b)"

definition ESC :: char where
  "ESC = CHR 0x1B"

definition CURSOR_COLOR :: string where
  "CURSOR_COLOR = ESC # ''[0;40;37;1;7m''"

definition CELL1_COLOR :: string where
  "CELL1_COLOR = ESC # ''[0;40;37m''"

definition CELL2_COLOR :: string where
  "CELL2_COLOR = ESC # ''[0;40;37;1m''"

definition ERASE_LINE :: string where
  "ERASE_LINE = ESC # ''[0m'' @ ESC # ''[0K''"

definition ERASE_SCRN_AFTER :: string where
  "ERASE_SCRN_AFTER = ESC # ''[0m'' @ ESC # ''[0J''"

definition SGR_RESET_SP :: string where
  "SGR_RESET_SP = ESC # ''[0m ''"

text \<open>The verbs \<open>%X\<close>, \<open>%02X\<close>, \<open>%08X\<close> and \<open>%d\<close> of Go's \<open>fmt\<close>.\<close>

definition hexdigit :: "nat \<Rightarrow> char" where
  "hexdigit d = ''0123456789ABCDEF'' ! (d mod 16)"

fun hex_digits :: "nat \<Rightarrow> string" where
  "hex_digits k = (if k < 16 then [hexdigit k] else hex_digits (k div 16) @ [hexdigit (k mod 16)])"

declare hex_digits.simps [simp del]

definition zero_pad :: "nat \<Rightarrow> string \<Rightarrow> string" where
  "zero_pad w ds = replicate (w - length ds) CHR ''0'' @ ds"

definition fmt_08X :: "int \<Rightarrow> string" where
  "fmt_08X a = (if a < 0 then CHR ''-'' # zero_pad 7 (hex_digits (nat (- a)))
                else zero_pad 8 (hex_digits (nat a)))"

definition fmt_02X :: "byte \<Rightarrow> string" where
  "fmt_02X s = zero_pad 2 (hex_digits (unat s))"

section \<open>The renderer: \<open>draw\<close>\<close>

text \<open>The first loop of \<open>draw\<close>: one hex cell per byte of the record.\<close>

definition hex_cell :: "int \<Rightarrow> nat \<Rightarrow> byte \<Rightarrow> string" where
  "hex_cell cursorPos i s =
     (if i > 0 then SGR_RESET_SP else [])
     @ (if int i = cursorPos then CURSOR_COLOR
        else if (drop_bit 2 i) AND 1 = 0 then CELL1_COLOR
        else CELL2_COLOR)
     @ fmt_02X s"

fun hex_loop :: "int \<Rightarrow> nat \<Rightarrow> byte list \<Rightarrow> string" where
  "hex_loop cursorPos i [] = []"
| "hex_loop cursorPos i (s # ss) = hex_cell cursorPos i s @ hex_loop cursorPos (Suc i) ss"

text \<open>The second loop: three blanks for every column from \<open>len(slice)\<close> up to 16.\<close>

definition hex_pad :: "nat \<Rightarrow> string" where
  "hex_pad n = concat (replicate (16 - n) ''   '')"

text \<open>The length a lead byte declares, before validation.\<close>

definition declared_length :: "byte \<Rightarrow> nat" where
  "declared_length s =
     (if 0x20 \<le> s \<and> s \<le> 0x7E then 1
      else if 0xC2 \<le> s \<and> s \<le> 0xDF then 2
      else if 0xE0 \<le> s \<and> s \<le> 0xEF then 3
      else if 0xF0 \<le> s \<and> s \<le> 0xF4 then 4
      else 0)"

text \<open>
  The inner loop \<open>for j := 1; j < length; j++\<close>: the length survives when every byte
  \<open>slice[i+j]\<close> is a continuation byte, and becomes 0 at the first one that is not.
\<close>

function cont_loop :: "byte list \<Rightarrow> nat \<Rightarrow> nat \<Rightarrow> nat \<Rightarrow> nat" where
  "cont_loop slc i len j =
     (if j < len then
        (let c = slc ! (i + j)
         in if c < 0x80 \<or> c > 0xBF then 0 else cont_loop slc i len (Suc j))
      else len)"
  by pat_completeness auto
termination
  by (relation "measure (\<lambda>(slc, i, len, j). len - j)") auto

declare cont_loop.simps [simp del]

definition seq_length :: "byte list \<Rightarrow> nat \<Rightarrow> nat" where
  "seq_length slc i =
     (let len = declared_length (slc ! i)
      in if i + len \<ge> length slc then 0
         else cont_loop slc i len 1)"

text \<open>
  The third loop: the character panel. The source advances \<open>i\<close> by \<open>length - 1\<close>
  inside the body and by one more in the loop header.
\<close>

function char_loop :: "int \<Rightarrow> byte list \<Rightarrow> nat \<Rightarrow> string" where
  "char_loop cursorPos slc i =
     (if i < length slc then
        (let len = seq_length slc i in
         if len = 0 then
           (if int i = cursorPos then CURSOR_COLOR else CELL1_COLOR) @ ''.''
           @ char_loop cursorPos slc (Suc i)
         else
           (if int i \<le> cursorPos \<and> cursorPos < int (i + len) then CURSOR_COLOR else CELL1_COLOR)
           @ map byte_char (take len (drop i slc))
           @ (if len = 3 then '' '' else if len = 4 then ''  '' else [])
           @ char_loop cursorPos slc (Suc (i + (len - 1))))
      else [])"
  by pat_completeness auto
termination
  by (relation "measure (\<lambda>(c, slc, i). length slc - i)") auto

declare char_loop.simps [simp del]

definition draw_hex :: "int \<Rightarrow> int \<Rightarrow> byte list \<Rightarrow> string" where
  "draw_hex address cursorPos slc =
     fmt_08X address @ '' '' @ hex_loop cursorPos 0 slc @ SGR_RESET_SP @ hex_pad (length slc)"

definition draw :: "int \<Rightarrow> int \<Rightarrow> byte list \<Rightarrow> string" where
  "draw address cursorPos slc =
     draw_hex address cursorPos slc @ char_loop cursorPos slc 0 @ ERASE_LINE"

text \<open>
  \<open>LineView\<close> and its method \<open>Draw\<close>. The field \<open>Out\<close> is the writer; here the text
  written is the result.
\<close>

record LineView =
  Slice :: "byte list"
  CursorPos :: int

definition Draw :: "LineView \<Rightarrow> int \<Rightarrow> string" where
  "Draw v address = draw address (CursorPos v) (Slice v)"

section \<open>The record source and the diff cache: \<open>view\<close>\<close>

text \<open>
  Errors are values. \<open>EOF\<close> is \<open>io.EOF\<close>, \<open>Failure\<close> any other error a collaborator
  returns. A runtime panic (an index or a slice bound out of range) unwinds every caller;
  it is the value \<open>Panic\<close>, which every caller below passes on unchanged.
\<close>

datatype error = EOF | Failure string | Panic

record MemoryBin =
  Data :: "byte list list"
  StartY :: int

definition Read :: "MemoryBin \<Rightarrow> (error + byte list) \<times> MemoryBin" where
  "Read this =
     (if StartY this \<ge> int (length (Data this)) then (Inl EOF, this)
      else if StartY this < 0 then (Inl Panic, this)
      else (Inr (Data this ! nat (StartY this)), this\<lparr>StartY := StartY this + 1\<rparr>))"

definition HomeAddress :: "MemoryBin \<Rightarrow> int" where
  "HomeAddress this = StartY this"

text \<open>
  The global \<open>cache\<close> is a Go map from row slot to the text last written there; reading
  a missing key gives the empty string.
\<close>

type_synonym line_cache = "nat \<rightharpoonup> string"

definition cache_get :: "line_cache \<Rightarrow> nat \<Rightarrow> string" where
  "cache_get c k = (case c k of None \<Rightarrow> [] | Some v \<Rightarrow> v)"

definition CRLF :: string where
  "CRLF = [CHR 0x0D, CHR 0x0A]"

text \<open>
  The loop of \<open>view\<close>, over the record source \<open>MemoryBin\<close>. The result is the line-feed
  count, the error, the cache and the text written.
\<close>

function view_loop ::
  "MemoryBin \<Rightarrow> int \<Rightarrow> int \<Rightarrow> int \<Rightarrow> int \<Rightarrow> nat \<Rightarrow> int \<Rightarrow> line_cache \<Rightarrow> string
   \<Rightarrow> int \<times> error option \<times> line_cache \<times> string" where
  "view_loop inp csrpos csrlin h homeAddress count lfCount cache out =
     (if int count \<ge> h then (lfCount, None, cache, out)
      else
        (case Read inp of
           (Inl e, inp') \<Rightarrow>
             (if e = EOF then (lfCount, None, cache, out) else (lfCount, Some e, cache, out))
         | (Inr rec, inp') \<Rightarrow>
             (let lfCount' = (if count > 0 then lfCount + 1 else lfCount);
                  out1 = (if count > 0 then out @ CRLF else out);
                  v = \<lparr>Slice = rec, CursorPos = (if int count = csrlin then csrpos else - 1)\<rparr>;
                  line = Draw v ((homeAddress + int count) * 16);
                  changed = (cache_get cache count \<noteq> line);
                  out2 = (if changed then out1 @ line else out1);
                  cache' = (if changed then cache(count \<mapsto> line) else cache)
              in view_loop inp' csrpos csrlin h homeAddress (Suc count) lfCount' cache' out2)))"
  by pat_completeness auto
termination
  by (relation "measure (\<lambda>(inp, csrpos, csrlin, h, home, count, r). nat (h - int count))") auto

declare view_loop.simps [simp del]

definition view ::
  "MemoryBin \<Rightarrow> int \<Rightarrow> int \<Rightarrow> int \<Rightarrow> int \<Rightarrow> line_cache
   \<Rightarrow> int \<times> error option \<times> line_cache \<times> string" where
  "view inp csrpos csrlin w h cache =
     view_loop inp csrpos csrlin h (HomeAddress inp) 0 0 cache []"

section \<open>Loading the dataset\<close>

text \<open>
  \<open>main1\<close> reads the input through a \<open>bufio.Reader\<close> into a fresh \<open>[16]byte\<close> array per
  call. The reader is a collaborator: one answer of \<open>in.Read\<close> is the count \<open>n\<close>, the
  bytes it left in the array and the error. The array always has 16 cells, and
  \<open>slice1[:n]\<close> with \<open>n > 16\<close> is a slice bound out of range. The script of answers is
  finite; when it runs out the loop is still waiting for the reader (\<open>None\<close>).
\<close>

record read_res =
  n :: int
  buf :: "byte list"
  rerr :: "error option"

definition array16 :: "byte list \<Rightarrow> byte list" where
  "array16 bs = take 16 (bs @ replicate 16 0)"

fun load_loop :: "read_res list \<Rightarrow> byte list list \<Rightarrow> (error + byte list list) option" where
  "load_loop [] slices = None"
| "load_loop (r # rs) slices =
     (if n r > 16 then Some (Inl Panic)
      else
        (let slices' = (if n r > 0 then slices @ [take (nat (n r)) (array16 (buf r))] else slices)
         in case rerr r of
              Some e \<Rightarrow> (if e \<noteq> EOF then Some (Inl e) else Some (Inr slices'))
            | None \<Rightarrow> load_loop rs slices'))"

section \<open>The interactive loop of \<open>main1\<close>\<close>

definition ANSI_CURSOR_OFF :: string where
  "ANSI_CURSOR_OFF = ESC # ''[?25l''"

definition ANSI_CURSOR_ON :: string where
  "ANSI_CURSOR_ON = ESC # ''[?25h''"

definition ANSI_YELLOW :: string where
  "ANSI_YELLOW = ESC # ''[0;33;1m''"

definition ANSI_RESET :: string where
  "ANSI_RESET = ESC # ''[0m''"

definition KEY_CTRL_A :: string where "KEY_CTRL_A = [CHR 0x01]"
definition KEY_CTRL_B :: string where "KEY_CTRL_B = [CHR 0x02]"
definition KEY_CTRL_E :: string where "KEY_CTRL_E = [CHR 0x05]"
definition KEY_CTRL_F :: string where "KEY_CTRL_F = [CHR 0x06]"
definition KEY_CTRL_L :: string where "KEY_CTRL_L = [CHR 0x0C]"
definition KEY_CTRL_N :: string where "KEY_CTRL_N = [CHR 0x0E]"
definition KEY_CTRL_P :: string where "KEY_CTRL_P = [CHR 0x10]"
definition KEY_DOWN :: string where "KEY_DOWN = ESC # ''[B''"
definition KEY_ESC :: string where "KEY_ESC = [ESC]"
definition KEY_LEFT :: string where "KEY_LEFT = ESC # ''[D''"
definition KEY_RIGHT :: string where "KEY_RIGHT = ESC # ''[C''"
definition KEY_UP :: string where "KEY_UP = ESC # ''[A''"

text \<open>
  The variables of the loop, the global cache and the text written to the terminal so
  far. The variable \<open>message\<close> is the empty string at every point of the source (it is
  only ever assigned \<open>""\<close>), so the branch that prints it is never taken and is left out.
\<close>

record session =
  colIndex :: int
  rowIndex :: int
  startRow :: int
  lastWidth :: int
  lastHeight :: int
  cache :: line_cache
  out :: string

text \<open>
  The terminal is a collaborator: \<open>tty1.Size()\<close> answers an error or \<open>(width, height)\<close>,
  \<open>getKey\<close> an error or a key token. Each kind of call consumes the next answer of its script.
\<close>

type_synonym size_res = "error + int \<times> int"
type_synonym key_res = "error + string"

text \<open>
  What one pass through the loop body does: go round again, return from \<open>main1\<close> with
  \<open>nil\<close> or an error, or wait for an answer the script does not hold.
\<close>

datatype step = Continue session | Return "error option" session | Blocked session

fun dec_digits :: "nat \<Rightarrow> string" where
  "dec_digits k = (if k < 10 then [hexdigit k] else dec_digits (k div 10) @ [hexdigit (k mod 10)])"

declare dec_digits.simps [simp del]

definition fmt_d :: "int \<Rightarrow> string" where
  "fmt_d a = (if a < 0 then CHR ''-'' # dec_digits (nat (- a)) else dec_digits (nat a))"

definition emit :: "string \<Rightarrow> session \<Rightarrow> session" where
  "emit txt s = s\<lparr>out := out s @ txt\<rparr>"

text \<open>\<open>slices[rowIndex]\<close>: \<open>None\<close> is the index-out-of-range panic.\<close>

definition row_at :: "byte list list \<Rightarrow> int \<Rightarrow> byte list option" where
  "row_at slices r = (if 0 \<le> r \<and> r < int (length slices) then Some (slices ! nat r) else None)"

text \<open>The status indicator printed below the rows.\<close>

definition status_line :: "byte list list \<Rightarrow> session \<Rightarrow> string" where
  "status_line slices s =
     (if 0 \<le> rowIndex s \<and> rowIndex s < int (length slices) then
        (let row = slices ! nat (rowIndex s) in
         if 0 \<le> colIndex s \<and> colIndex s < int (length row) then
           ESC # ''[0;33;1m('' @ fmt_08X (rowIndex s * 16 + colIndex s) @ ''):''
           @ fmt_02X (row ! nat (colIndex s)) @ ESC # ''[0m''
         else [])
      else [])"

text \<open>The cases of the \<open>switch\<close> that move the cursor; any other token changes nothing.\<close>

definition move :: "byte list list \<Rightarrow> string \<Rightarrow> session \<Rightarrow> session option" where
  "move slices ch s =
     (if ch = ''j'' \<or> ch = KEY_DOWN \<or> ch = KEY_CTRL_N then
        Some (if rowIndex s < int (length slices) - 1 then s\<lparr>rowIndex := rowIndex s + 1\<rparr> else s)
      else if ch = ''k'' \<or> ch = KEY_UP \<or> ch = KEY_CTRL_P then
        Some (if rowIndex s > 0 then s\<lparr>rowIndex := rowIndex s - 1\<rparr> else s)
      else if ch = ''h'' \<or> ch = KEY_LEFT \<or> ch = KEY_CTRL_B then
        Some (if colIndex s > 0 then s\<lparr>colIndex := colIndex s - 1\<rparr> else s)
      else if ch = ''l'' \<or> ch = KEY_RIGHT \<or> ch = KEY_CTRL_F then
        Some (s\<lparr>colIndex := colIndex s + 1\<rparr>)
      else if ch = ''0'' \<or> ch = ''^'' \<or> ch = KEY_CTRL_A then
        Some (s\<lparr>colIndex := 0\<rparr>)
      else if ch = ''$'' \<or> ch = KEY_CTRL_E then
        (case row_at slices (rowIndex s) of
           None \<Rightarrow> None
         | Some row \<Rightarrow> Some (s\<lparr>colIndex := int (length row) - 1\<rparr>))
      else if ch = ''<'' then
        Some (s\<lparr>rowIndex := 0\<rparr>)
      else if ch = ''>'' then
        Some (s\<lparr>rowIndex := int (length slices) - 1\<rparr>)
      else Some s)"

text \<open>The statements after the \<open>switch\<close>: clamp the column, scroll, move the terminal cursor up.\<close>

definition clamp_col :: "byte list list \<Rightarrow> session \<Rightarrow> session option" where
  "clamp_col slices s =
     (case row_at slices (rowIndex s) of
        None \<Rightarrow> None
      | Some row \<Rightarrow>
          Some (if colIndex s \<ge> int (length row) then s\<lparr>colIndex := int (length row) - 1\<rparr> else s))"

definition scroll :: "int \<Rightarrow> session \<Rightarrow> session" where
  "scroll screenHeight s =
     (if rowIndex s < startRow s then s\<lparr>startRow := rowIndex s\<rparr>
      else if rowIndex s \<ge> startRow s + screenHeight - 1 then
        s\<lparr>startRow := rowIndex s - (screenHeight - 1) + 1\<rparr>
      else s)"

definition cursor_up :: "int \<Rightarrow> session \<Rightarrow> session" where
  "cursor_up lf s =
     (if lf > 0 then emit ([CHR 0x0D, ESC] @ ''['' @ fmt_d lf @ ''A'') s
      else emit [CHR 0x0D] s)"

definition after_switch :: "byte list list \<Rightarrow> int \<Rightarrow> int \<Rightarrow> session \<Rightarrow> step" where
  "after_switch slices screenHeight lf s =
     (case clamp_col slices s of
        None \<Rightarrow> Return (Some Panic) s
      | Some s1 \<Rightarrow> Continue (cursor_up lf (scroll screenHeight s1)))"

text \<open>The \<open>switch\<close> on the key token, with the second key read of the quit confirmation.\<close>

definition on_key ::
  "byte list list \<Rightarrow> int \<Rightarrow> int \<Rightarrow> string \<Rightarrow> session \<Rightarrow> key_res list \<Rightarrow> step \<times> key_res list" where
  "on_key slices screenHeight lf ch s keys =
     (if ch = KEY_CTRL_L then
        (after_switch slices screenHeight lf (s\<lparr>cache := Map.empty\<rparr>), keys)
      else if ch = ''q'' \<or> ch = KEY_ESC then
        (let s1 = emit (ANSI_YELLOW @ [CHR 0x0D] @ ''Quit Sure ? [y/n]'' @ ERASE_LINE) s
         in case keys of
              [] \<Rightarrow> (Blocked s1, [])
            | k # keys' \<Rightarrow>
                (if k = Inr ''y'' then (Return None (emit [CHR 0x0A] s1), keys')
                 else (after_switch slices screenHeight lf s1, keys')))
      else
        (case move slices ch s of
           None \<Rightarrow> (Return (Some Panic) s, keys)
         | Some s1 \<Rightarrow> (after_switch slices screenHeight lf s1, keys)))"

text \<open>
  The head of the loop body: a changed terminal size empties the cache; then the window
  starting at \<open>startRow\<close> is drawn through \<open>view\<close>.
\<close>

definition on_resize :: "int \<Rightarrow> int \<Rightarrow> session \<Rightarrow> session" where
  "on_resize screenWidth screenHeight s =
     (if lastWidth s \<noteq> screenWidth \<or> lastHeight s \<noteq> screenHeight
      then emit ANSI_CURSOR_OFF
             (s\<lparr>cache := Map.empty, lastWidth := screenWidth, lastHeight := screenHeight\<rparr>)
      else s)"

definition show_rows ::
  "byte list list \<Rightarrow> int \<Rightarrow> int \<Rightarrow> session \<Rightarrow> int \<times> error option \<times> session" where
  "show_rows slices screenWidth screenHeight s =
     (let window = \<lparr>Data = slices, StartY = startRow s\<rparr>
      in case view window (colIndex s) (rowIndex s - startRow s)
                (screenWidth - 1) (screenHeight - 1) (cache s) of
           (lf, verr, cache', vout) \<Rightarrow> (lf, verr, emit vout (s\<lparr>cache := cache'\<rparr>)))"

text \<open>One pass through the body of the \<open>for\<close> loop.\<close>

definition frame ::
  "byte list list \<Rightarrow> session \<Rightarrow> size_res \<Rightarrow> key_res list \<Rightarrow> step \<times> key_res list" where
  "frame slices s sz keys =
     (case sz of
        Inl e \<Rightarrow> (Return (Some e) s, keys)
      | Inr (screenWidth, screenHeight) \<Rightarrow>
          (case show_rows slices screenWidth screenHeight
                  (on_resize screenWidth screenHeight s) of
             (lf, Some e, s2) \<Rightarrow> (Return (Some e) s2, keys)
           | (lf, None, s2) \<Rightarrow>
               (let s3 = emit (CRLF @ status_line slices s2 @ ERASE_SCRN_AFTER) s2
                in case keys of
                     [] \<Rightarrow> (Blocked s3, [])
                   | Inl e # keys' \<Rightarrow> (Return (Some e) s3, keys')
                   | Inr ch # keys' \<Rightarrow> on_key slices screenHeight (lf + 1) ch s3 keys')))"

text \<open>
  The \<open>for\<close> loop. It runs as long as the terminal answers; when a script is used up the
  loop is waiting (\<open>Blocked\<close>) in the state it has reached.
\<close>

fun main_loop :: "byte list list \<Rightarrow> session \<Rightarrow> size_res list \<Rightarrow> key_res list \<Rightarrow> step" where
  "main_loop slices s [] keys = Blocked s"
| "main_loop slices s (sz # szs) keys =
     (case frame slices s sz keys of
        (Continue s', keys') \<Rightarrow> main_loop slices s' szs keys'
      | (r, keys') \<Rightarrow> r)"

definition init_session :: session where
  "init_session =
     \<lparr>colIndex = 0, rowIndex = 0, startRow = 0, lastWidth = 0, lastHeight = 0,
      cache = Map.empty, out = ANSI_CURSOR_OFF\<rparr>"

text \<open>The deferred write of the cursor-on sequence runs on every return path.\<close>

definition deferred :: "step \<Rightarrow> step" where
  "deferred r = (case r of Return e s \<Rightarrow> Return e (emit ANSI_CURSOR_ON s) | _ \<Rightarrow> r)"

text \<open>
  \<open>main1\<close>. The answers of \<open>NewArgf\<close> and \<open>tty.Open\<close> (an error or none), the reader's
  script and the terminal's scripts are its inputs.
\<close>

definition main1 ::
  "error option \<Rightarrow> read_res list \<Rightarrow> error option \<Rightarrow> size_res list \<Rightarrow> key_res list \<Rightarrow> step" where
  "main1 argf reads ttyopen sizes keys =
     deferred
       (case argf of
          Some e \<Rightarrow> Return (Some e) init_session
        | None \<Rightarrow>
            (case load_loop reads [] of
               None \<Rightarrow> Blocked init_session
             | Some (Inl e) \<Rightarrow> Return (Some e) init_session
             | Some (Inr slices) \<Rightarrow>
                 (if length slices \<le> 0 then Return (Some EOF) init_session
                  else case ttyopen of
                         Some e \<Rightarrow> Return (Some e) init_session
                       | None \<Rightarrow> main_loop slices init_session sizes keys)))"

section \<open>Observations on runs and on rendered text\<close>

text \<open>The session a step carries, and whether the loop goes round again.\<close>

definition session_of :: "step \<Rightarrow> session" where
  "session_of r = (case r of Continue s \<Rightarrow> s | Return e s \<Rightarrow> s | Blocked s \<Rightarrow> s)"

definition continues :: "step \<Rightarrow> bool" where
  "continues r = (case r of Continue s \<Rightarrow> True | _ \<Rightarrow> False)"

text \<open>The cursor row, the cursor column and the start row of the session a step carries.\<close>

definition position :: "step \<Rightarrow> int \<times> int \<times> int" where
  "position r = (rowIndex (session_of r), colIndex (session_of r), startRow (session_of r))"

definition returned :: "step \<Rightarrow> error option option" where
  "returned r = (case r of Return e s \<Rightarrow> Some e | _ \<Rightarrow> None)"

definition waiting :: "step \<Rightarrow> bool" where
  "waiting r = (case r of Blocked s \<Rightarrow> True | _ \<Rightarrow> False)"

text \<open>
  The visible text of terminal output: what is left when the control sequences
  (\<open>ESC [\<close>, parameters, one final byte from \<open>@\<close> to \<open>~\<close>) are taken out. Its length is
  the number of columns the output occupies.
\<close>

datatype scan = Text | Esc | Csi

fun vis :: "scan \<Rightarrow> string \<Rightarrow> string" where
  "vis st [] = []"
| "vis Text (c # cs) = (if c = ESC then vis Esc cs else c # vis Text cs)"
| "vis Esc (c # cs) = (if c = CHR ''['' then vis Csi cs else vis Text cs)"
| "vis Csi (c # cs) =
     (if (0x40 :: nat) \<le> of_char c \<and> of_char c \<le> (0x7E :: nat) then vis Text cs else vis Csi cs)"

definition visible :: "string \<Rightarrow> string" where
  "visible txt = vis Text txt"

text \<open>The line \<open>view\<close> renders for row slot \<open>count\<close> of a window.\<close>

definition row_line :: "int \<Rightarrow> int \<Rightarrow> int \<Rightarrow> nat \<Rightarrow> byte list \<Rightarrow> string" where
  "row_line homeAddress csrpos csrlin count rec =
     Draw \<lparr>Slice = rec, CursorPos = (if int count = csrlin then csrpos else - 1)\<rparr>
       ((homeAddress + int count) * 16)"





section \<open>Basic facts about the loop body\<close>

lemmas key_defs =
  KEY_CTRL_A_def KEY_CTRL_B_def KEY_CTRL_E_def KEY_CTRL_F_def KEY_CTRL_L_def
  KEY_CTRL_N_def KEY_CTRL_P_def KEY_DOWN_def KEY_ESC_def KEY_LEFT_def KEY_RIGHT_def
  KEY_UP_def ESC_def


lemma emit_fields [simp]:
  "colIndex (emit t s) = colIndex s" "rowIndex (emit t s) = rowIndex s"
  "startRow (emit t s) = startRow s" "lastWidth (emit t s) = lastWidth s"
  "lastHeight (emit t s) = lastHeight s" "cache (emit t s) = cache s"
  "out (emit t s) = out s @ t"
  by (simp_all add: emit_def)

lemma cursor_up_fields [simp]:
  "colIndex (cursor_up lf s) = colIndex s" "rowIndex (cursor_up lf s) = rowIndex s"
  "startRow (cursor_up lf s) = startRow s" "cache (cursor_up lf s) = cache s"
  "lastWidth (cursor_up lf s) = lastWidth s" "lastHeight (cursor_up lf s) = lastHeight s"
  by (simp_all add: cursor_up_def)

lemma scroll_fields [simp]:
  "colIndex (scroll h s) = colIndex s" "rowIndex (scroll h s) = rowIndex s"
  "cache (scroll h s) = cache s" "out (scroll h s) = out s"
  by (simp_all add: scroll_def)

lemma on_resize_fields [simp]:
  "colIndex (on_resize w h s) = colIndex s" "rowIndex (on_resize w h s) = rowIndex s"
  "startRow (on_resize w h s) = startRow s"
  by (simp_all add: on_resize_def)

lemma show_rows_fields:
  assumes "show_rows slices w h s = (lf, verr, s2)"
  shows "colIndex s2 = colIndex s" "rowIndex s2 = rowIndex s" "startRow s2 = startRow s"
  using assms by (auto simp: show_rows_def Let_def split: prod.splits)

lemma frame_ContinueE:
  assumes "frame slices s sz keys = (Continue s', keys')"
  obtains w h ch keys0 s3 lf where
    "sz = Inr (w, h)" "keys = Inr ch # keys0" 
    "colIndex s3 = colIndex s" "rowIndex s3 = rowIndex s" "startRow s3 = startRow s"
    "on_key slices h lf ch s3 keys0 = (Continue s', keys')"
proof (cases sz)
  case (Inl e) with assms show ?thesis by (simp add: frame_def)
next
  case (Inr wh)
  obtain w h where wh: "wh = (w, h)" by (cases wh)
  obtain lf verr s2 where sr: "show_rows slices w h (on_resize w h s) = (lf, verr, s2)"
    by (cases "show_rows slices w h (on_resize w h s)") auto
  note f = show_rows_fields [OF sr]
  from assms Inr wh sr obtain ch keys0 where
    "verr = None" "keys = Inr ch # keys0"
    "on_key slices h (lf + 1) ch (emit (CRLF @ status_line slices s2 @ ERASE_SCRN_AFTER) s2) keys0
       = (Continue s', keys')"
    by (auto simp: frame_def Let_def split: option.splits list.splits sum.splits)
  with Inr wh f show ?thesis by (intro that) auto
qed

lemma after_switch_ContinueD:
  assumes "after_switch slices h lf s1 = Continue s'"
  shows "\<exists>s2. clamp_col slices s1 = Some s2 \<and> s' = cursor_up lf (scroll h s2)"
  using assms by (auto simp: after_switch_def split: option.splits)

lemma on_key_ContinueE:
  assumes "on_key slices h lf ch s keys = (Continue s', keys')"
  obtains s1 s2 where
    "move slices ch s = Some s1 \<or>
       (colIndex s1 = colIndex s \<and> rowIndex s1 = rowIndex s \<and> startRow s1 = startRow s)"
    "clamp_col slices s1 = Some s2" "s' = cursor_up lf (scroll h s2)"
proof -
  consider (refresh) "ch = KEY_CTRL_L"
    | (quit) "ch \<noteq> KEY_CTRL_L" "ch = ''q'' \<or> ch = KEY_ESC"
    | (other) "ch \<noteq> KEY_CTRL_L" "\<not> (ch = ''q'' \<or> ch = KEY_ESC)"
    by blast
  then show ?thesis
  proof cases
    case refresh
    with assms have "after_switch slices h lf (s\<lparr>cache := Map.empty\<rparr>) = Continue s'"
      by (simp add: on_key_def)
    from after_switch_ContinueD [OF this] show ?thesis
      by (elim exE conjE) (rule that [of "s\<lparr>cache := Map.empty\<rparr>"], auto)
  next
    case quit
    let ?s1 = "emit (ANSI_YELLOW @ [CHR 0x0D] @ ''Quit Sure ? [y/n]'' @ ERASE_LINE) s"
    from assms quit have "after_switch slices h lf ?s1 = Continue s'"
      by (auto simp: on_key_def Let_def split: list.splits if_splits)
    from after_switch_ContinueD [OF this] show ?thesis
      by (elim exE conjE) (rule that [of ?s1], auto)
  next
    case other
    with assms obtain s1 where m: "move slices ch s = Some s1"
      and "after_switch slices h lf s1 = Continue s'"
      by (auto simp: on_key_def split: option.splits)
    from after_switch_ContinueD [OF this(2)] m show ?thesis
      by (elim exE conjE) (rule that [of s1], auto)
  qed
qed

lemma row_at_Some: "row_at slices r = Some row \<longleftrightarrow> 0 \<le> r \<and> r < int (length slices) \<and> row = slices ! nat r"
  by (auto simp: row_at_def)



lemma row_nonempty:
  assumes "row_at slices r = Some row" "\<forall>r \<in> set slices. r \<noteq> []"
  shows "0 < length row"
proof -
  from assms(1) have "row \<in> set slices"
    by (auto simp: row_at_def split: if_splits)
  with assms(2) have "row \<noteq> []" by blast
  then show ?thesis by simp
qed

lemma move_SomeD:
  assumes "move slices ch s = Some s1"
  shows "s1 = s
    \<or> (rowIndex s < int (length slices) - 1 \<and> s1 = s\<lparr>rowIndex := rowIndex s + 1\<rparr>)
    \<or> (0 < rowIndex s \<and> s1 = s\<lparr>rowIndex := rowIndex s - 1\<rparr>)
    \<or> (0 < colIndex s \<and> s1 = s\<lparr>colIndex := colIndex s - 1\<rparr>)
    \<or> s1 = s\<lparr>colIndex := colIndex s + 1\<rparr>
    \<or> s1 = s\<lparr>colIndex := 0\<rparr>
    \<or> (\<exists>row. row_at slices (rowIndex s) = Some row \<and> s1 = s\<lparr>colIndex := int (length row) - 1\<rparr>)
    \<or> s1 = s\<lparr>rowIndex := 0\<rparr>
    \<or> s1 = s\<lparr>rowIndex := int (length slices) - 1\<rparr>"
  using assms unfolding move_def
  by (simp split: if_splits option.splits add: eq_commute [of _ s1])

lemma move_row_valid:
  assumes "move slices ch s = Some s1" "0 \<le> rowIndex s" "rowIndex s < int (length slices)"
  shows "0 \<le> rowIndex s1 \<and> rowIndex s1 < int (length slices)"
  using move_SomeD [OF assms(1)] assms(2,3) by auto

lemma move_col_nonneg:
  assumes "move slices ch s = Some s1" "0 \<le> colIndex s" "\<forall>r \<in> set slices. r \<noteq> []"
  shows "0 \<le> colIndex s1"
  using move_SomeD [OF assms(1)] assms(2) row_nonempty [OF _ assms(3)] by fastforce

lemma clamp_col_range:
  assumes "clamp_col slices s1 = Some s2" "0 \<le> colIndex s1" "\<forall>r \<in> set slices. r \<noteq> []"
  shows "0 \<le> rowIndex s2 \<and> rowIndex s2 < int (length slices) \<and> 0 \<le> colIndex s2
     \<and> colIndex s2 \<le> int (length (slices ! nat (rowIndex s2))) - 1"
proof -
  from assms(1) obtain row where r: "row_at slices (rowIndex s1) = Some row"
    and s2: "s2 = (if colIndex s1 \<ge> int (length row) then s1\<lparr>colIndex := int (length row) - 1\<rparr> else s1)"
    by (auto simp: clamp_col_def split: option.splits)
  from r have v: "0 \<le> rowIndex s1" "rowIndex s1 < int (length slices)" "row = slices ! nat (rowIndex s1)"
    by (auto simp: row_at_def split: if_splits)
  from row_nonempty [OF r assms(3)] s2 v assms(2) show ?thesis
    by (auto split: if_splits)
qed


lemma move_startRow:
  assumes "move slices ch s = Some s1"
  shows "startRow s1 = startRow s"
  using move_SomeD [OF assms] by auto

lemma clamp_col_keeps:
  assumes "clamp_col slices s1 = Some s2"
  shows "rowIndex s2 = rowIndex s1" "startRow s2 = startRow s1"
    "0 \<le> rowIndex s1" "rowIndex s1 < int (length slices)"
    "colIndex s2 \<le> int (length (slices ! nat (rowIndex s1))) - 1"
    "colIndex s1 < int (length (slices ! nat (rowIndex s1))) \<Longrightarrow> s2 = s1"
  using assms by (auto simp: clamp_col_def row_at_def split: option.splits if_splits)

lemma step_continuesD:
  assumes "continues (fst x)"
  shows "x = (Continue (session_of (fst x)), snd x)"
  using assms by (cases x; cases "fst x") (auto simp: continues_def session_of_def)

lemma load_loop_records:
  assumes "load_loop reads acc = Some (Inr slices)"
    and "\<forall>r \<in> set acc. 1 \<le> length r \<and> length r \<le> 16"
  shows "\<forall>r \<in> set slices. 1 \<le> length r \<and> length r \<le> 16"
  using assms
proof (induction reads arbitrary: acc)
  case Nil
  then show ?case by simp
next
  case (Cons r rs)
  let ?acc' = "if n r > 0 then acc @ [take (nat (n r)) (array16 (buf r))] else acc"
  from Cons.prems(1) have le: "n r \<le> 16"
    by (simp split: if_splits)
  have len16: "length (array16 (buf r)) = 16"
    by (simp add: array16_def)
  have acc': "\<forall>x \<in> set ?acc'. 1 \<le> length x \<and> length x \<le> 16"
    using Cons.prems(2) le len16 by auto
  show ?case
  proof (cases "rerr r")
    case None
    with Cons.prems(1) le have "load_loop rs ?acc' = Some (Inr slices)"
      by (simp add: Let_def)
    from Cons.IH [OF this acc'] show ?thesis .
  next
    case (Some e)
    with Cons.prems(1) le have "slices = ?acc'"
      by (simp add: Let_def split: if_splits)
    with acc' show ?thesis by simp
  qed
qed

lemma view_loop_done:
  assumes "int count \<ge> h"
  shows "view_loop inp csrpos csrlin h home count lf c acc = (lf, None, c, acc)"
  using assms by (subst view_loop.simps) simp

lemma view_loop_eof:
  assumes "StartY inp \<ge> int (length (Data inp))"
  shows "view_loop inp csrpos csrlin h home count lf c acc = (lf, None, c, acc)"
  using assms by (subst view_loop.simps) (simp add: Read_def)

lemma view_loop_row:
  assumes "\<not> int count \<ge> h" "0 \<le> StartY inp" "StartY inp < int (length (Data inp))"
  shows "view_loop inp csrpos csrlin h home count lf c acc =
     view_loop (inp\<lparr>StartY := StartY inp + 1\<rparr>) csrpos csrlin h home (Suc count)
       (if count > 0 then lf + 1 else lf)
       (if cache_get c count \<noteq> row_line home csrpos csrlin count (Data inp ! nat (StartY inp))
        then c(count \<mapsto> row_line home csrpos csrlin count (Data inp ! nat (StartY inp))) else c)
       ((if count > 0 then acc @ CRLF else acc)
        @ (if cache_get c count \<noteq> row_line home csrpos csrlin count (Data inp ! nat (StartY inp))
           then row_line home csrpos csrlin count (Data inp ! nat (StartY inp)) else []))"
  using assms
  by (subst view_loop.simps) (simp add: Read_def Let_def row_line_def)

lemma view_loop_no_error:
  assumes "0 \<le> StartY inp"
  shows "fst (snd (view_loop inp csrpos csrlin h home count lf c acc)) = None"
  using assms
proof (induction "nat (h - int count)" arbitrary: inp count lf c acc)
  case 0
  then have "int count \<ge> h" by simp
  then show ?case by (simp add: view_loop_done)
next
  case (Suc k)
  then have lt: "\<not> int count \<ge> h" by linarith
  show ?case
  proof (cases "StartY inp \<ge> int (length (Data inp))")
    case True
    then show ?thesis by (simp add: view_loop_eof)
  next
    case False
    with Suc.prems lt have st: "view_loop inp csrpos csrlin h home count lf c acc =
        view_loop (inp\<lparr>StartY := StartY inp + 1\<rparr>) csrpos csrlin h home (Suc count)
       (if count > 0 then lf + 1 else lf)
       (if cache_get c count \<noteq> row_line home csrpos csrlin count (Data inp ! nat (StartY inp))
        then c(count \<mapsto> row_line home csrpos csrlin count (Data inp ! nat (StartY inp))) else c)
       ((if count > 0 then acc @ CRLF else acc)
        @ (if cache_get c count \<noteq> row_line home csrpos csrlin count (Data inp ! nat (StartY inp))
           then row_line home csrpos csrlin count (Data inp ! nat (StartY inp)) else []))"
      by (intro view_loop_row) simp_all
    have k: "k = nat (h - int (Suc count))" using Suc.hyps(2) by simp
    have "0 \<le> StartY (inp\<lparr>StartY := StartY inp + 1\<rparr>)" using Suc.prems by simp
    from Suc.hyps(1) [OF k this] show ?thesis
      unfolding st .
  qed
qed

lemma show_rows_ok:
  assumes "0 \<le> startRow s"
  obtains lf s2 where "show_rows slices w h s = (lf, None, s2)"
    "colIndex s2 = colIndex s" "rowIndex s2 = rowIndex s" "startRow s2 = startRow s"
proof -
  let ?v = "view \<lparr>Data = slices, StartY = startRow s\<rparr> (colIndex s) (rowIndex s - startRow s)
              (w - 1) (h - 1) (cache s)"
  obtain lf verr c' vout where v: "?v = (lf, verr, c', vout)"
    by (cases ?v) auto
  have "fst (snd ?v) = None"
    unfolding view_def by (rule view_loop_no_error) (simp add: assms)
  with v have "verr = None" by simp
  with v have "show_rows slices w h s = (lf, None, emit vout (s\<lparr>cache := c'\<rparr>))"
    by (simp add: show_rows_def)
  then show ?thesis by (rule that) simp_all
qed

lemma frame_reads_key:
  assumes "0 \<le> startRow s"
  obtains lf s3 where
    "colIndex s3 = colIndex s" "rowIndex s3 = rowIndex s" "startRow s3 = startRow s"
    "\<And>ch keys. frame slices s (Inr (w, h)) (Inr ch # keys) = on_key slices h lf ch s3 keys"
    "\<And>e keys. frame slices s (Inr (w, h)) (Inl e # keys) = (Return (Some e) s3, keys)"
    "frame slices s (Inr (w, h)) [] = (Blocked s3, [])"
proof -
  have "0 \<le> startRow (on_resize w h s)" using assms by simp
  then obtain lf s2 where sr: "show_rows slices w h (on_resize w h s) = (lf, None, s2)"
    and f: "colIndex s2 = colIndex (on_resize w h s)" "rowIndex s2 = rowIndex (on_resize w h s)"
      "startRow s2 = startRow (on_resize w h s)"
    by (rule show_rows_ok)
  let ?s3 = "emit (CRLF @ status_line slices s2 @ ERASE_SCRN_AFTER) s2"
  show ?thesis
  proof (rule that [of ?s3 "lf + 1"])
    show "colIndex ?s3 = colIndex s" "rowIndex ?s3 = rowIndex s" "startRow ?s3 = startRow s"
      using f by simp_all
  qed (simp_all add: frame_def sr)
qed

lemma scroll_startRow:
  "startRow (scroll h s) =
     (if rowIndex s < startRow s then rowIndex s
      else if rowIndex s \<ge> startRow s + (h - 1) then rowIndex s - (h - 1) + 1
      else startRow s)"
  by (simp add: scroll_def)

lemma on_key_right:
  assumes "ch = ''l'' \<or> ch = KEY_RIGHT \<or> ch = KEY_CTRL_F"
  shows "on_key slices h lf ch s keys =
     (after_switch slices h lf (s\<lparr>colIndex := colIndex s + 1\<rparr>), keys)"
  using assms by (elim disjE; simp add: on_key_def move_def key_defs)

lemma scroll_startRow_nonneg:
  assumes "0 \<le> startRow s" "0 \<le> rowIndex s"
  shows "0 \<le> startRow (scroll h s)"
  using assms by (simp add: scroll_def)

lemma frame_right_at_end:
  assumes ch: "ch = ''l'' \<or> ch = KEY_RIGHT \<or> ch = KEY_CTRL_F"
    and s: "0 \<le> startRow s" "0 \<le> rowIndex s" "rowIndex s < int (length slices)"
      "colIndex s = int (length (slices ! nat (rowIndex s))) - 1"
  obtains s' where "frame slices s (Inr (w, h)) (Inr ch # keys) = (Continue s', keys)"
    "colIndex s' = colIndex s" "rowIndex s' = rowIndex s" "0 \<le> startRow s'"
proof -
  obtain lf s3 where f: "colIndex s3 = colIndex s" "rowIndex s3 = rowIndex s"
      "startRow s3 = startRow s"
    and k: "\<And>ch keys. frame slices s (Inr (w, h)) (Inr ch # keys) = on_key slices h lf ch s3 keys"
    using frame_reads_key [OF s(1)] by metis
  let ?s1 = "s3\<lparr>colIndex := colIndex s3 + 1\<rparr>"
  let ?s2 = "s3\<lparr>colIndex := int (length (slices ! nat (rowIndex s))) - 1\<rparr>"
  have cl: "clamp_col slices ?s1 = Some ?s2"
    using f s by (simp add: clamp_col_def row_at_def)
  let ?s' = "cursor_up lf (scroll h ?s2)"
  have "frame slices s (Inr (w, h)) (Inr ch # keys) = (Continue ?s', keys)"
    by (simp add: k on_key_right [OF ch] after_switch_def cl)
  moreover have "0 \<le> startRow ?s'"
    using scroll_startRow_nonneg [of ?s2 h] f s by simp
  ultimately show ?thesis
    using f s by (intro that [of ?s']) simp_all
qed

lemma main_loop_right_at_end:
  assumes ch: "ch = ''l'' \<or> ch = KEY_RIGHT \<or> ch = KEY_CTRL_F"
    and s: "0 \<le> startRow s" "0 \<le> rowIndex s" "rowIndex s < int (length slices)"
      "colIndex s = int (length (slices ! nat (rowIndex s))) - 1"
  shows "\<exists>s'. main_loop slices s (map Inr whs) (replicate (length whs) (Inr ch)) = Blocked s'
    \<and> colIndex s' = int (length (slices ! nat (rowIndex s))) - 1 \<and> rowIndex s' = rowIndex s"
  using s
proof (induction whs arbitrary: s)
  case Nil
  then show ?case by simp
next
  case (Cons wh whs)
  obtain w h where wh: "wh = (w, h)" by (cases wh)
  obtain s1 where f: "frame slices s (Inr (w, h)) (Inr ch # replicate (length whs) (Inr ch))
      = (Continue s1, replicate (length whs) (Inr ch))"
    and s1: "colIndex s1 = colIndex s" "rowIndex s1 = rowIndex s" "0 \<le> startRow s1"
    using frame_right_at_end [OF ch Cons.prems] by metis
  have "\<exists>s'. main_loop slices s1 (map Inr whs) (replicate (length whs) (Inr ch)) = Blocked s'
    \<and> colIndex s' = int (length (slices ! nat (rowIndex s1))) - 1 \<and> rowIndex s' = rowIndex s1"
    using Cons.prems s1 by (intro Cons.IH) simp_all
  with f s1 wh show ?case by simp
qed

lemma on_key_quit:
  assumes "ch = ''q'' \<or> ch = KEY_ESC"
  shows "on_key slices h lf ch s (k # keys) =
     (if k = Inr ''y''
      then (Return None
              (emit [CHR 0x0A]
                 (emit (ANSI_YELLOW @ [CHR 0x0D] @ ''Quit Sure ? [y/n]'' @ ERASE_LINE) s)), keys)
      else (after_switch slices h lf
              (emit (ANSI_YELLOW @ [CHR 0x0D] @ ''Quit Sure ? [y/n]'' @ ERASE_LINE) s), keys))"
  using assms by (elim disjE; simp add: on_key_def key_defs Let_def)

lemma returned_deferred: "returned (deferred r) = returned r"
  by (cases r) (simp_all add: returned_def deferred_def)

lemma frame_nav:
  assumes "frame slices s sz keys = (Continue s', keys')"
  obtains w h s2 where "sz = Inr (w, h)"
    "rowIndex s' = rowIndex s2" "startRow s2 = startRow s"
    "startRow s' = startRow (scroll h s2)"
proof -
  from assms obtain w h ch keys0 s3 lf where
    sz: "sz = Inr (w, h)"
    and s3: "startRow s3 = startRow s"
    and k: "on_key slices h lf ch s3 keys0 = (Continue s', keys')"
    by (rule frame_ContinueE)
  from k obtain s1 s2 where
    m: "move slices ch s3 = Some s1 \<or>
         (colIndex s1 = colIndex s3 \<and> rowIndex s1 = rowIndex s3 \<and> startRow s1 = startRow s3)"
    and cl: "clamp_col slices s1 = Some s2" and s': "s' = cursor_up lf (scroll h s2)"
    by (rule on_key_ContinueE)
  from m have "startRow s1 = startRow s3"
    using move_startRow by blast
  with clamp_col_keeps(2) [OF cl] s3 s' sz show ?thesis
    by (intro that [of w h s2]) simp_all
qed

lemma hexdigit_in: "hexdigit d \<in> set ''0123456789ABCDEF''"
  unfolding hexdigit_def by (rule nth_mem) simp

lemma hexdigit_not_ESC: "hexdigit d \<noteq> ESC"
proof -
  have "ESC \<notin> set ''0123456789ABCDEF''" by (simp add: ESC_def)
  with hexdigit_in [of d] show ?thesis by metis
qed

lemma hex_digits_no_ESC: "ESC \<notin> set (hex_digits k)"
proof (induction k rule: hex_digits.induct)
  case (1 k)
  show ?case
  proof (cases "k < 16")
    case True
    then show ?thesis
      by (subst hex_digits.simps) (simp add: hexdigit_not_ESC [symmetric])
  next
    case False
    with "1.IH" show ?thesis
      by (subst hex_digits.simps) (simp add: hexdigit_not_ESC [symmetric])
  qed
qed

lemma hex_digits_length:
  assumes "k < 16 ^ m" "1 \<le> m"
  shows "1 \<le> length (hex_digits k) \<and> length (hex_digits k) \<le> m"
  using assms
proof (induction m arbitrary: k)
  case 0
  then show ?case by simp
next
  case (Suc m)
  show ?case
  proof (cases "k < 16")
    case True
    then show ?thesis by (subst (1 2) hex_digits.simps) simp
  next
    case False
    with Suc.prems have m: "1 \<le> m" by (cases m) auto
    from Suc.prems have "k div 16 < 16 ^ m"
      by (simp add: less_mult_imp_div_less mult.commute)
    from Suc.IH [OF this m] False show ?thesis
      by (subst (1 2) hex_digits.simps) simp
  qed
qed

lemma zero_pad_no_ESC: "ESC \<notin> set ds \<Longrightarrow> ESC \<notin> set (zero_pad w ds)"
  by (auto simp: zero_pad_def ESC_def)

lemma fmt_02X_no_ESC: "ESC \<notin> set (fmt_02X s)"
  unfolding fmt_02X_def by (intro zero_pad_no_ESC hex_digits_no_ESC)

lemma fmt_02X_length: "length (fmt_02X s) = 2"
proof -
  have "unat s < 16 ^ 2" using unsigned_less [of s] by simp
  from hex_digits_length [OF this] show ?thesis
    by (simp add: fmt_02X_def zero_pad_def)
qed

lemma fmt_08X_no_ESC: "ESC \<notin> set (fmt_08X a)"
  using zero_pad_no_ESC [OF hex_digits_no_ESC]
  by (simp add: fmt_08X_def) (simp add: ESC_def)

lemma fmt_08X_length:
  assumes "0 \<le> a" "a < 2 ^ 32"
  shows "length (fmt_08X a) = 8"
proof -
  from assms have "nat a < 16 ^ 8" by (simp add: nat_less_iff)
  from hex_digits_length [OF this] assms show ?thesis
    by (simp add: fmt_08X_def zero_pad_def)
qed

lemma vis_plain: "ESC \<notin> set a \<Longrightarrow> vis Text (a @ b) = a @ vis Text b"
  by (induction a) auto

lemma vis_codes [simp]:
  "vis Text (SGR_RESET_SP @ b) = CHR '' '' # vis Text b"
  "vis Text (CURSOR_COLOR @ b) = vis Text b"
  "vis Text (CELL1_COLOR @ b) = vis Text b"
  "vis Text (CELL2_COLOR @ b) = vis Text b"
  by (simp_all add: SGR_RESET_SP_def CURSOR_COLOR_def CELL1_COLOR_def CELL2_COLOR_def ESC_def)

lemma vis_hex_cell:
  "vis Text (hex_cell c i s @ b) = (if i > 0 then '' '' else []) @ fmt_02X s @ vis Text b"
  by (simp add: hex_cell_def vis_plain [OF fmt_02X_no_ESC])

lemma vis_hex_loop_Suc:
  "vis Text (hex_loop c (Suc i) ss @ b) = concat (map (\<lambda>x. '' '' @ fmt_02X x) ss) @ vis Text b"
  by (induction ss arbitrary: i) (simp_all add: vis_hex_cell)

lemma groups_shift:
  "fmt_02X s @ concat (map (\<lambda>x. '' '' @ fmt_02X x) ss) @ '' ''
     = concat (map (\<lambda>x. fmt_02X x @ '' '') (s # ss))"
  by (induction ss arbitrary: s) simp_all

lemma hex_pad_blanks: "hex_pad k = replicate (3 * (16 - k)) CHR '' ''"
proof -
  have "concat (replicate m ''   '') = replicate (3 * m) CHR '' ''" for m
    by (induction m) (simp_all add: replicate_add numeral_3_eq_3)
  then show ?thesis by (simp add: hex_pad_def)
qed

lemma vis_blanks: "vis Text (replicate m CHR '' '' @ b) = replicate m CHR '' '' @ vis Text b"
  by (rule vis_plain) (simp add: ESC_def)

lemma vis_draw_prefix:
  assumes "slc \<noteq> []"
  shows "vis Text (draw_hex address cursorPos slc @ rest) =
     fmt_08X address @ '' '' @ concat (map (\<lambda>x. fmt_02X x @ '' '') slc)
     @ replicate (3 * (16 - length slc)) CHR '' '' @ vis Text rest"
proof -
  from assms obtain s ss where slc: "slc = s # ss" by (cases slc) auto
  have "vis Text (draw_hex address cursorPos slc @ rest) =
      fmt_08X address @ '' '' @ (fmt_02X s @ concat (map (\<lambda>x. '' '' @ fmt_02X x) ss) @ '' '')
      @ replicate (3 * (16 - length slc)) CHR '' '' @ vis Text rest"
    by (simp add: draw_hex_def slc vis_plain [OF fmt_08X_no_ESC] vis_hex_cell
        vis_hex_loop_Suc hex_pad_blanks vis_blanks ESC_def)
  then show ?thesis by (simp only: groups_shift slc)
qed

lemma vis_draw_prefix_empty:
  "vis Text (draw_hex address cursorPos [] @ rest) =
     fmt_08X address @ '' '' @ '' '' @ replicate 48 CHR '' '' @ vis Text rest"
  by (simp add: draw_hex_def vis_plain [OF fmt_08X_no_ESC] hex_pad_blanks vis_blanks ESC_def)

lemma cont_loop_two_valid:
  assumes "0x80 \<le> slc ! Suc i" "slc ! Suc i \<le> 0xBF"
  shows "cont_loop slc i 2 (Suc 0) = 2"
  using assms
  by (subst cont_loop.simps, simp add: Let_def not_less, subst cont_loop.simps, simp)

lemma cont_loop_two_invalid:
  assumes "slc ! Suc i < 0x80 \<or> slc ! Suc i > 0xBF"
  shows "cont_loop slc i 2 (Suc 0) = 0"
  using assms
  by (subst cont_loop.simps) (auto simp add: Let_def)

lemma declared_length_two:
  assumes "0xC2 \<le> s" "s \<le> 0xDF"
  shows "declared_length s = 2"
proof -
  from assms have "\<not> s \<le> 0x7E"
    by (simp add: word_le_nat_alt)
  with assms show ?thesis by (simp add: declared_length_def)
qed

lemma seq_length_two_valid:
  assumes "0xC2 \<le> slc ! i" "slc ! i \<le> 0xDF" "i + 2 < length slc"
    "0x80 \<le> slc ! (i + 1)" "slc ! (i + 1) \<le> 0xBF"
  shows "seq_length slc i = 2"
  using assms
  by (simp add: seq_length_def declared_length_two cont_loop_two_valid)

lemma seq_length_two_invalid:
  assumes "0xC2 \<le> slc ! i" "slc ! i \<le> 0xDF"
    "slc ! (i + 1) < 0x80 \<or> slc ! (i + 1) > 0xBF"
  shows "seq_length slc i = 0"
  using assms
  by (simp add: seq_length_def declared_length_two cont_loop_two_invalid)

lemma seq_length_two_at_end:
  assumes "0xC2 \<le> slc ! i" "slc ! i \<le> 0xDF" "i + 2 \<ge> length slc"
  shows "seq_length slc i = 0"
  using assms
  by (simp add: seq_length_def declared_length_two)


lemma declared_length_one:
  assumes "0x20 \<le> s" "s \<le> 0x7E"
  shows "declared_length s = 1"
  using assms by (simp add: declared_length_def)

lemma seq_length_printable:
  assumes "0x20 \<le> slc ! i" "slc ! i \<le> 0x7E" "i + 1 < length slc"
  shows "seq_length slc i = 1"
  using assms
  by (simp add: seq_length_def declared_length_one) (subst cont_loop.simps, simp)

lemma declared_length_le: "declared_length s \<le> 4"
  by (simp add: declared_length_def)

lemma cont_loop_result:
  "cont_loop slc i len j = 0 \<or> cont_loop slc i len j = len"
proof (induction slc i len j rule: cont_loop.induct)
  case (1 slc i len j)
  show ?case
  proof (cases "j < len")
    case False
    then show ?thesis by (subst (1 2) cont_loop.simps) simp
  next
    case True
    show ?thesis
    proof (cases "slc ! (i + j) < 0x80 \<or> slc ! (i + j) > 0xBF")
      case bad: True
      with True show ?thesis by (subst cont_loop.simps) (simp add: Let_def)
    next
      case ok: False
      with True "1.IH" [OF True refl ok] show ?thesis
        by (subst (1 2) cont_loop.simps) (simp add: Let_def)
    qed
  qed
qed

lemma cont_loop_nonzero:
  assumes "cont_loop slc i len j \<noteq> 0" "j \<le> k" "k < len"
  shows "0x80 \<le> slc ! (i + k) \<and> slc ! (i + k) \<le> 0xBF"
  using assms
proof (induction slc i len j rule: cont_loop.induct)
  case (1 slc i len j)
  from "1.prems" have lt: "j < len" by simp
  have ok: "\<not> (slc ! (i + j) < 0x80 \<or> slc ! (i + j) > 0xBF)"
  proof
    assume "slc ! (i + j) < 0x80 \<or> slc ! (i + j) > 0xBF"
    with lt have "cont_loop slc i len j = 0"
      by (subst cont_loop.simps) (simp add: Let_def)
    with "1.prems"(1) show False by simp
  qed
  with lt have st: "cont_loop slc i len j = cont_loop slc i len (Suc j)"
    by (subst cont_loop.simps) (simp add: Let_def)
  show ?case
  proof (cases "k = j")
    case True
    with ok show ?thesis by (simp add: not_less)
  next
    case False
    with "1.prems" have "Suc j \<le> k" by simp
    from "1.IH" [OF lt refl ok] st "1.prems"(1) this "1.prems"(3) show ?thesis by simp
  qed
qed

lemma seq_length_cont:
  assumes "seq_length slc i \<noteq> 0" "1 \<le> k" "k < seq_length slc i"
  shows "0x80 \<le> slc ! (i + k) \<and> slc ! (i + k) \<le> 0xBF"
proof -
  let ?len = "declared_length (slc ! i)"
  from assms(1) have nz: "cont_loop slc i ?len 1 \<noteq> 0"
    and eq: "seq_length slc i = cont_loop slc i ?len 1"
    by (auto simp: seq_length_def Let_def split: if_splits)
  from cont_loop_result [of slc i ?len 1] nz have "cont_loop slc i ?len 1 = ?len" by blast
  with eq assms(3) have "k < ?len" by simp
  from cont_loop_nonzero [OF nz assms(2) this] show ?thesis .
qed

lemma char_loop_step:
  assumes "i < length slc"
  shows "\<exists>pre. char_loop c slc i = pre @ char_loop c slc (i + max 1 (seq_length slc i))"
proof (cases "seq_length slc i = 0")
  case True
  with assms show ?thesis
    by (subst char_loop.simps) (simp add: Let_def)
next
  case False
  then have "Suc (i + (seq_length slc i - 1)) = i + max 1 (seq_length slc i)" by simp
  with assms False show ?thesis
    by (subst char_loop.simps) (simp add: Let_def del: append_assoc add: append_assoc [symmetric])
qed

lemma scan_reaches:
  assumes "i \<le> j" "j < length slc" "\<not> (0x80 \<le> slc ! j \<and> slc ! j \<le> 0xBF)"
  shows "\<exists>pre. char_loop c slc i = pre @ char_loop c slc j"
  using assms
proof (induction "j - i" arbitrary: i rule: less_induct)
  case less
  show ?case
  proof (cases "i = j")
    case True
    then show ?thesis by simp
  next
    case False
    with less.prems have lt: "i < j" "i < length slc" by simp_all
    let ?n = "i + max 1 (seq_length slc i)"
    have le: "?n \<le> j"
    proof (rule ccontr)
      assume "\<not> ?n \<le> j"
      with lt have "seq_length slc i \<noteq> 0" "1 \<le> j - i" "j - i < seq_length slc i"
        by (auto simp: max_def split: if_splits)
      from seq_length_cont [OF this] lt less.prems(3) show False by simp
    qed
    from char_loop_step [OF lt(2)] obtain p1 where
      p1: "char_loop c slc i = p1 @ char_loop c slc ?n" by blast
    have "j - ?n < j - i" using lt le by (auto simp: max_def)
    from less.hyps [OF this le less.prems(2,3)] obtain p2 where
      "char_loop c slc ?n = p2 @ char_loop c slc j" by blast
    with p1 have "char_loop c slc i = (p1 @ p2) @ char_loop c slc j" by simp
    then show ?thesis by blast
  qed
qed


lemma char_loop_invalid:
  assumes "k < length slc" "seq_length slc k = 0"
  shows "char_loop c slc k =
    (if int k = c then CURSOR_COLOR else CELL1_COLOR) @ ''.'' @ char_loop c slc (Suc k)"
  using assms by (subst char_loop.simps) (simp add: Let_def)

lemma char_loop_one:
  assumes "k < length slc" "seq_length slc k = 1"
  shows "char_loop c slc k =
    (if int k = c then CURSOR_COLOR else CELL1_COLOR) @ [byte_char (slc ! k)]
    @ char_loop c slc (Suc k)"
proof -
  from assms(1) have "take (Suc 0) (drop k slc) = [slc ! k]"
    using Cons_nth_drop_Suc [of k slc] by (simp add: take_Suc_conv_app_nth)
  with assms show ?thesis
    by (subst char_loop.simps) (auto simp add: Let_def)
qed

lemma char_loop_two:
  assumes "Suc k < length slc" "seq_length slc k = 2"
  shows "char_loop c slc k =
    (if int k \<le> c \<and> c < int k + 2 then CURSOR_COLOR else CELL1_COLOR)
    @ [byte_char (slc ! k), byte_char (slc ! Suc k)]
    @ char_loop c slc (Suc (Suc k))"
proof -
  from assms(1) have "drop k slc = slc ! k # slc ! Suc k # drop (Suc (Suc k)) slc"
    using Cons_nth_drop_Suc [of k slc] Cons_nth_drop_Suc [of "Suc k" slc] by simp
  then have "take 2 (drop k slc) = [slc ! k, slc ! Suc k]" by simp
  with assms show ?thesis
    by (subst char_loop.simps) (simp add: Let_def)
qed










lemma cache_get_cong: "c' k = c k \<Longrightarrow> cache_get c' k = cache_get c k"
  by (simp add: cache_get_def)





lemma after_switch_valid:
  assumes "0 \<le> rowIndex s1" "rowIndex s1 < int (length slices)"
  shows "continues (after_switch slices h lf s1)"
  using assms by (simp add: after_switch_def clamp_col_def row_at_def continues_def)

lemma on_key_stops:
  assumes k: "on_key slices h lf ch s keys = (r, keys')" and nc: "\<not> continues r"
    and v: "0 \<le> rowIndex s" "rowIndex s < int (length slices)"
  shows "colIndex (session_of r) = colIndex s \<and> rowIndex (session_of r) = rowIndex s"
proof -
  consider (refresh) "ch = KEY_CTRL_L"
    | (quit) "ch \<noteq> KEY_CTRL_L" "ch = ''q'' \<or> ch = KEY_ESC"
    | (other) "ch \<noteq> KEY_CTRL_L" "\<not> (ch = ''q'' \<or> ch = KEY_ESC)"
    by blast
  then show ?thesis
  proof cases
    case refresh
    with k have "r = after_switch slices h lf (s\<lparr>cache := Map.empty\<rparr>)"
      by (simp add: on_key_def)
    with nc v after_switch_valid [of "s\<lparr>cache := Map.empty\<rparr>" slices h lf]
    show ?thesis by simp
  next
    case quit
    let ?s1 = "emit (ANSI_YELLOW @ [CHR 0x0D] @ ''Quit Sure ? [y/n]'' @ ERASE_LINE) s"
    have c: "continues (after_switch slices h lf ?s1)"
      using v by (intro after_switch_valid) simp_all
    from k quit have "r = Blocked ?s1 \<or> r = Return None (emit [CHR 0x0A] ?s1)
        \<or> r = after_switch slices h lf ?s1"
      by (cases keys) (auto simp: on_key_def Let_def split: if_splits)
    with nc c show ?thesis
      by (auto simp: session_of_def)
  next
    case other
    show ?thesis
    proof (cases "move slices ch s")
      case None
      with k other have "r = Return (Some Panic) s"
        by (simp add: on_key_def)
      then show ?thesis by (simp add: session_of_def)
    next
      case (Some s1)
      with k other have r: "r = after_switch slices h lf s1"
        by (simp add: on_key_def)
      from move_row_valid [OF Some v] have "continues (after_switch slices h lf s1)"
        by (intro after_switch_valid) simp_all
      with r nc show ?thesis by simp
    qed
  qed
qed

lemma frame_stops:
  assumes f: "frame slices s sz keys = (r, keys')" and nc: "\<not> continues r"
    and v: "0 \<le> rowIndex s" "rowIndex s < int (length slices)"
  shows "colIndex (session_of r) = colIndex s \<and> rowIndex (session_of r) = rowIndex s"
proof (cases sz)
  case (Inl e)
  with f show ?thesis by (auto simp: frame_def session_of_def)
next
  case (Inr wh)
  obtain w h where wh: "wh = (w, h)" by (cases wh)
  obtain lf verr s2 where sr: "show_rows slices w h (on_resize w h s) = (lf, verr, s2)"
    by (cases "show_rows slices w h (on_resize w h s)") auto
  note fl = show_rows_fields [OF sr]
  let ?s3 = "emit (CRLF @ status_line slices s2 @ ERASE_SCRN_AFTER) s2"
  show ?thesis
  proof (cases verr)
    case (Some e)
    with f Inr wh sr fl show ?thesis by (auto simp: frame_def session_of_def)
  next
    case None
    show ?thesis
    proof (cases keys)
      case Nil
      with f Inr wh sr None fl show ?thesis by (auto simp: frame_def session_of_def)
    next
      case (Cons k ks)
      show ?thesis
      proof (cases k)
        case (Inl e)
        with f Inr wh sr None Cons fl show ?thesis by (auto simp: frame_def session_of_def)
      next
        case key: (Inr ch)
        with f Inr wh sr None Cons have "on_key slices h (lf + 1) ch ?s3 ks = (r, keys')"
          by (simp add: frame_def)
        from on_key_stops [OF this nc] v fl show ?thesis by simp
      qed
    qed
  qed
qed


lemma frame_col_range:
  assumes ne: "\<forall>r \<in> set slices. r \<noteq> []" and c: "0 \<le> colIndex s"
    and f: "frame slices s sz keys = (Continue s', keys')"
  shows "0 \<le> colIndex s' \<and> colIndex s' \<le> int (length (slices ! nat (rowIndex s'))) - 1
      \<and> 0 \<le> rowIndex s' \<and> rowIndex s' < int (length slices)"
proof -
  from f obtain w h ch keys0 s3 lf where
    s3: "colIndex s3 = colIndex s"
    and k: "on_key slices h lf ch s3 keys0 = (Continue s', keys')"
    by (rule frame_ContinueE)
  from k obtain s1 s2 where
    m: "move slices ch s3 = Some s1 \<or>
         (colIndex s1 = colIndex s3 \<and> rowIndex s1 = rowIndex s3 \<and> startRow s1 = startRow s3)"
    and cl: "clamp_col slices s1 = Some s2" and s': "s' = cursor_up lf (scroll h s2)"
    by (rule on_key_ContinueE)
  from m c s3 have "0 \<le> colIndex s1"
    using move_col_nonneg [OF _ _ ne] by auto
  from clamp_col_range [OF cl this ne] s' show ?thesis
    by simp
qed

lemma main_loop_col_range:
  assumes ne: "\<forall>r \<in> set slices. r \<noteq> []"
    and inv: "0 \<le> colIndex s" "colIndex s \<le> int (length (slices ! nat (rowIndex s))) - 1"
      "0 \<le> rowIndex s" "rowIndex s < int (length slices)"
  shows "0 \<le> colIndex (session_of (main_loop slices s szs keys))
    \<and> colIndex (session_of (main_loop slices s szs keys))
        \<le> int (length (slices ! nat (rowIndex (session_of (main_loop slices s szs keys))))) - 1
    \<and> 0 \<le> rowIndex (session_of (main_loop slices s szs keys))
    \<and> rowIndex (session_of (main_loop slices s szs keys)) < int (length slices)"
  using inv
proof (induction szs arbitrary: s keys)
  case Nil
  then show ?case by (simp add: session_of_def)
next
  case (Cons sz szs)
  obtain r keys' where f: "frame slices s sz keys = (r, keys')"
    by (cases "frame slices s sz keys") auto
  show ?case
  proof (cases "continues r")
    case True
    then obtain s' where r: "r = Continue s'"
      by (cases r) (simp_all add: continues_def)
    from frame_col_range [OF ne Cons.prems(1) f [unfolded r]]
    have "0 \<le> colIndex s'" "colIndex s' \<le> int (length (slices ! nat (rowIndex s'))) - 1"
      "0 \<le> rowIndex s'" "rowIndex s' < int (length slices)"
      by simp_all
    from Cons.IH [OF this, of keys'] f r show ?thesis by simp
  next
    case False
    then have m: "main_loop slices s (sz # szs) keys = r"
      using f by (cases r) (simp_all add: continues_def)
    from frame_stops [OF f False Cons.prems(3,4)] Cons.prems show ?thesis
      unfolding m by simp
  qed
qed

section \<open>The claims\<close>

text \<open>
  C1. The record "Hello World" at address 0 with the cursor on column 0: the address
  prefix is 00000000, the hex byte 48 and the glyph H carry the cursor attribute, eleven
  hex groups are followed by five blank slots, and the character panel shows the first
  ten bytes verbatim. The last byte, the letter d, is drawn as the placeholder: the test
  \<open>i+length >= len(slice)\<close> rejects every sequence that ends exactly at the end of the
  record.
\<close>

theorem draw_hello_world:
  "draw 0 0 [0x48, 0x65, 0x6C, 0x6C, 0x6F, 0x20, 0x57, 0x6F, 0x72, 0x6C, 0x64] =
     ''00000000 '' @ CURSOR_COLOR @ ''48'' @ SGR_RESET_SP @ CELL1_COLOR @ ''65''
     @ SGR_RESET_SP @ CELL1_COLOR @ ''6C'' @ SGR_RESET_SP @ CELL1_COLOR @ ''6C''
     @ SGR_RESET_SP @ CELL2_COLOR @ ''6F'' @ SGR_RESET_SP @ CELL2_COLOR @ ''20''
     @ SGR_RESET_SP @ CELL2_COLOR @ ''57'' @ SGR_RESET_SP @ CELL2_COLOR @ ''6F''
     @ SGR_RESET_SP @ CELL1_COLOR @ ''72'' @ SGR_RESET_SP @ CELL1_COLOR @ ''6C''
     @ SGR_RESET_SP @ CELL1_COLOR @ ''64'' @ SGR_RESET_SP @ ''               ''
     @ CURSOR_COLOR @ ''H'' @ CELL1_COLOR @ ''e'' @ CELL1_COLOR @ ''l'' @ CELL1_COLOR @ ''l''
     @ CELL1_COLOR @ ''o'' @ CELL1_COLOR @ '' '' @ CELL1_COLOR @ ''W'' @ CELL1_COLOR @ ''o''
     @ CELL1_COLOR @ ''r'' @ CELL1_COLOR @ ''l'' @ CELL1_COLOR @ ''.'' @ ERASE_LINE
   \<and> visible (draw 0 0 [0x48, 0x65, 0x6C, 0x6C, 0x6F, 0x20, 0x57, 0x6F, 0x72, 0x6C, 0x64]) =
     ''00000000 48 65 6C 6C 6F 20 57 6F 72 6C 64                Hello Worl.''"
  by code_simp

text \<open>
  C9. In every session and for every answer of the terminal, the keys j, k, h and l take
  the loop body to exactly the same result as the tokens down, up, left and right.
\<close>

theorem vi_keys_same_as_arrows:
  "fst (frame slices s sz (Inr ''j'' # keys)) = fst (frame slices s sz (Inr KEY_DOWN # keys))
   \<and> fst (frame slices s sz (Inr ''k'' # keys)) = fst (frame slices s sz (Inr KEY_UP # keys))
   \<and> fst (frame slices s sz (Inr ''h'' # keys)) = fst (frame slices s sz (Inr KEY_LEFT # keys))
   \<and> fst (frame slices s sz (Inr ''l'' # keys)) = fst (frame slices s sz (Inr KEY_RIGHT # keys))
   \<and> main_loop slices s szs (Inr ''j'' # keys) = main_loop slices s szs (Inr KEY_DOWN # keys)
   \<and> main_loop slices s szs (Inr ''k'' # keys) = main_loop slices s szs (Inr KEY_UP # keys)
   \<and> main_loop slices s szs (Inr ''h'' # keys) = main_loop slices s szs (Inr KEY_LEFT # keys)
   \<and> main_loop slices s szs (Inr ''l'' # keys) = main_loop slices s szs (Inr KEY_RIGHT # keys)"
proof -
  have k: "on_key slices h lf ''j'' t ks = on_key slices h lf KEY_DOWN t ks"
    "on_key slices h lf ''k'' t ks = on_key slices h lf KEY_UP t ks"
    "on_key slices h lf ''h'' t ks = on_key slices h lf KEY_LEFT t ks"
    "on_key slices h lf ''l'' t ks = on_key slices h lf KEY_RIGHT t ks"
    for h lf t ks
    by (simp_all add: on_key_def move_def key_defs)
  have f: "fst (frame slices s sz (Inr ''j'' # keys)) = fst (frame slices s sz (Inr KEY_DOWN # keys))"
    "fst (frame slices s sz (Inr ''k'' # keys)) = fst (frame slices s sz (Inr KEY_UP # keys))"
    "fst (frame slices s sz (Inr ''h'' # keys)) = fst (frame slices s sz (Inr KEY_LEFT # keys))"
    "fst (frame slices s sz (Inr ''l'' # keys)) = fst (frame slices s sz (Inr KEY_RIGHT # keys))"
    for sz
    by (simp_all add: frame_def k split: sum.splits prod.splits option.splits)
  have m: "main_loop slices s szs (Inr a # keys) = main_loop slices s szs (Inr b # keys)"
    if "\<And>h lf t ks. on_key slices h lf a t ks = on_key slices h lf b t ks" for a b
  proof (cases szs)
    case Nil
    then show ?thesis by simp
  next
    case (Cons sz szs')
    show ?thesis
    proof (cases sz)
      case (Inl e)
      with Cons show ?thesis by (simp add: frame_def)
    next
      case (Inr wh)
      obtain w h where wh: "wh = (w, h)" by (cases wh)
      obtain lf verr s2 where sr: "show_rows slices w h (on_resize w h s) = (lf, verr, s2)"
        by (cases "show_rows slices w h (on_resize w h s)") auto
      show ?thesis
      proof (cases verr)
        case None
        with Cons Inr wh sr that show ?thesis by (simp add: frame_def)
      next
        case (Some e)
        with Cons Inr wh sr show ?thesis by (simp add: frame_def)
      qed
    qed
  qed
  from f m [OF k(1)] m [OF k(2)] m [OF k(3)] m [OF k(4)] show ?thesis
    by (intro conjI)
qed

text \<open>
  C10. Every record of a dataset the loading loop returns has between 1 and 16 bytes.
  Hence, on such a dataset, the "$" command (and ctrl-e) leaves the column at the last
  byte of the row, which is not negative, and no pass through the loop body turns a
  non-negative column into a negative one.
\<close>

theorem loaded_records_nonempty:
  assumes "load_loop reads [] = Some (Inr slices)"
  shows "(\<forall>r \<in> set slices. 1 \<le> length r \<and> length r \<le> 16)
    \<and> (\<forall>s sz ch keys s' keys'.
          (ch = ''$'' \<or> ch = KEY_CTRL_E) \<longrightarrow>
          frame slices s sz (Inr ch # keys) = (Continue s', keys') \<longrightarrow>
          0 \<le> colIndex s' \<and> colIndex s' = int (length (slices ! nat (rowIndex s'))) - 1)
    \<and> (\<forall>s sz keys s' keys'.
          0 \<le> colIndex s \<longrightarrow> frame slices s sz keys = (Continue s', keys') \<longrightarrow>
          0 \<le> colIndex s')"
proof (intro conjI)
  show recs: "\<forall>r \<in> set slices. 1 \<le> length r \<and> length r \<le> 16"
    using load_loop_records [OF assms] by simp
  then have ne: "\<forall>r \<in> set slices. r \<noteq> []" by auto
  show "\<forall>s sz keys s' keys'.
          0 \<le> colIndex s \<longrightarrow> frame slices s sz keys = (Continue s', keys') \<longrightarrow>
          0 \<le> colIndex s'"
  proof (intro allI impI)
    fix s sz keys s' keys'
    assume c: "0 \<le> colIndex s" and f: "frame slices s sz keys = (Continue s', keys')"
    from f obtain w h ch keys0 s3 lf where
      s3: "colIndex s3 = colIndex s"
      and k: "on_key slices h lf ch s3 keys0 = (Continue s', keys')"
      by (rule frame_ContinueE)
    from k obtain s1 s2 where
      m: "move slices ch s3 = Some s1 \<or>
           (colIndex s1 = colIndex s3 \<and> rowIndex s1 = rowIndex s3 \<and> startRow s1 = startRow s3)"
      and cl: "clamp_col slices s1 = Some s2" and s': "s' = cursor_up lf (scroll h s2)"
      by (rule on_key_ContinueE)
    from m c s3 have "0 \<le> colIndex s1"
      using move_col_nonneg [OF _ _ ne] by auto
    from clamp_col_range [OF cl this ne] s' show "0 \<le> colIndex s'" by simp
  qed
  show "\<forall>s sz ch keys s' keys'.
          (ch = ''$'' \<or> ch = KEY_CTRL_E) \<longrightarrow>
          frame slices s sz (Inr ch # keys) = (Continue s', keys') \<longrightarrow>
          0 \<le> colIndex s' \<and> colIndex s' = int (length (slices ! nat (rowIndex s'))) - 1"
  proof (intro allI impI)
    fix s sz ch keys s' keys'
    assume ch: "ch = ''$'' \<or> ch = KEY_CTRL_E"
      and f: "frame slices s sz (Inr ch # keys) = (Continue s', keys')"
    from f obtain w h ch' keys0 s3 lf where
      "Inr ch # keys = Inr ch' # keys0"
      and k': "on_key slices h lf ch' s3 keys0 = (Continue s', keys')"
      by (rule frame_ContinueE)
    then have k: "on_key slices h lf ch s3 keys = (Continue s', keys')" by simp
    from ch have nq: "ch \<noteq> KEY_CTRL_L" "ch \<noteq> ''q''" "ch \<noteq> KEY_ESC"
      by (elim disjE; simp add: key_defs)+
    from ch have mv: "move slices ch s3 =
        (case row_at slices (rowIndex s3) of None \<Rightarrow> None
         | Some row \<Rightarrow> Some (s3\<lparr>colIndex := int (length row) - 1\<rparr>))"
      by (elim disjE; simp add: move_def key_defs)
    from k nq mv obtain row where
      r: "row_at slices (rowIndex s3) = Some row"
      and a: "after_switch slices h lf (s3\<lparr>colIndex := int (length row) - 1\<rparr>) = Continue s'"
      by (auto simp: on_key_def split: option.splits)
    from r have row: "row = slices ! nat (rowIndex s3)" "row \<in> set slices"
      by (auto simp: row_at_def split: if_splits)
    with ne have "0 < length row" by auto
    with a r row show "0 \<le> colIndex s'
        \<and> colIndex s' = int (length (slices ! nat (rowIndex s'))) - 1"
      by (auto simp: after_switch_def clamp_col_def split: option.splits if_splits)
  qed
qed

theorem loaded_records_nonempty_witness:
  "load_loop [\<lparr>n = 2, buf = [0x41, 0x42], rerr = None\<rparr>, \<lparr>n = 0, buf = [], rerr = Some EOF\<rparr>] []
     = Some (Inr [[0x41, 0x42]])
   \<and> list_all (\<lambda>r. 1 \<le> length r \<and> length r \<le> 16) [[0x41, 0x42 :: byte]]
   \<and> 0 \<le> colIndex (session_of (fst (frame [[0x41, 0x42]] init_session (Inr (80, 24)) [Inr ''$''])))
   \<and> colIndex (session_of (fst (frame [[0x41, 0x42]] init_session (Inr (80, 24)) [Inr ''$'']))) = 1"
proof -
  let ?reads = "[\<lparr>n = 2, buf = [0x41, 0x42], rerr = None\<rparr>, \<lparr>n = 0, buf = [], rerr = Some EOF\<rparr>]"
  let ?slices = "[[0x41, 0x42 :: byte]]"
  let ?x = "frame ?slices init_session (Inr (80, 24)) [Inr ''$'']"
  have l: "load_loop ?reads [] = Some (Inr ?slices)"
    by code_simp
  have "continues (fst ?x)" by code_simp
  then have x: "?x = (Continue (session_of (fst ?x)), snd ?x)"
    by (rule step_continuesD)
  have r: "rowIndex (session_of (fst ?x)) = 0" by code_simp
  note T = loaded_records_nonempty [OF l]
  from T have "\<forall>r \<in> set ?slices. 1 \<le> length r \<and> length r \<le> 16"
    by (rule conjunct1)
  then have A: "list_all (\<lambda>r. 1 \<le> length r \<and> length r \<le> 16) ?slices"
    by (simp only: list_all_iff)
  have d: "''$'' = ''$'' \<or> ''$'' = KEY_CTRL_E" by simp
  note B = T [THEN conjunct2, THEN conjunct1, rule_format, OF d x]
  from B r have C: "colIndex (session_of (fst ?x)) = 1" by simp
  show ?thesis by (rule conjI [OF l conjI [OF A conjI [OF B [THEN conjunct1] C]]])
qed

text \<open>
  C5. On a dataset without empty records, every pass through the loop body that goes on
  to the next key leaves the column between 0 and the last byte of the current row.
  Starting at the last column of a row, any number of "move right" keys (l, right,
  ctrl-f) leaves the column at that last byte and the row unchanged. Whatever the
  terminal answers, the session a run of the loop from the initial state has reached
  has its column in that range.
\<close>

theorem column_clamped_after_transition:
  "((\<forall>r \<in> set slices. r \<noteq> []) \<longrightarrow> 0 \<le> colIndex s \<longrightarrow>
      frame slices s sz keys = (Continue s', keys') \<longrightarrow>
      0 \<le> colIndex s' \<and> colIndex s' \<le> int (length (slices ! nat (rowIndex s'))) - 1
      \<and> 0 \<le> rowIndex s' \<and> rowIndex s' < int (length slices))
   \<and> ((ch = ''l'' \<or> ch = KEY_RIGHT \<or> ch = KEY_CTRL_F) \<longrightarrow>
      0 \<le> startRow t \<longrightarrow> 0 \<le> rowIndex t \<longrightarrow> rowIndex t < int (length slices) \<longrightarrow>
      colIndex t = int (length (slices ! nat (rowIndex t))) - 1 \<longrightarrow>
      (\<exists>t'. main_loop slices t (map Inr whs) (replicate (length whs) (Inr ch)) = Blocked t'
         \<and> colIndex t' = int (length (slices ! nat (rowIndex t))) - 1
         \<and> rowIndex t' = rowIndex t))
   \<and> ((\<forall>r \<in> set slices. r \<noteq> []) \<longrightarrow> slices \<noteq> [] \<longrightarrow>
      0 \<le> colIndex (session_of (main_loop slices init_session szs ks))
      \<and> colIndex (session_of (main_loop slices init_session szs ks))
          \<le> int (length (slices ! nat (rowIndex (session_of (main_loop slices init_session szs ks))))) - 1
      \<and> 0 \<le> rowIndex (session_of (main_loop slices init_session szs ks))
      \<and> rowIndex (session_of (main_loop slices init_session szs ks)) < int (length slices))"
proof (intro conjI)
  show "(\<forall>r \<in> set slices. r \<noteq> []) \<longrightarrow> 0 \<le> colIndex s \<longrightarrow>
      frame slices s sz keys = (Continue s', keys') \<longrightarrow>
      0 \<le> colIndex s' \<and> colIndex s' \<le> int (length (slices ! nat (rowIndex s'))) - 1
      \<and> 0 \<le> rowIndex s' \<and> rowIndex s' < int (length slices)"
    by (intro impI) (rule frame_col_range)
  show "(ch = ''l'' \<or> ch = KEY_RIGHT \<or> ch = KEY_CTRL_F) \<longrightarrow>
      0 \<le> startRow t \<longrightarrow> 0 \<le> rowIndex t \<longrightarrow> rowIndex t < int (length slices) \<longrightarrow>
      colIndex t = int (length (slices ! nat (rowIndex t))) - 1 \<longrightarrow>
      (\<exists>t'. main_loop slices t (map Inr whs) (replicate (length whs) (Inr ch)) = Blocked t'
         \<and> colIndex t' = int (length (slices ! nat (rowIndex t))) - 1
         \<and> rowIndex t' = rowIndex t)"
    by (intro impI) (rule main_loop_right_at_end)
  show "(\<forall>r \<in> set slices. r \<noteq> []) \<longrightarrow> slices \<noteq> [] \<longrightarrow>
      0 \<le> colIndex (session_of (main_loop slices init_session szs ks))
      \<and> colIndex (session_of (main_loop slices init_session szs ks))
          \<le> int (length (slices ! nat (rowIndex (session_of (main_loop slices init_session szs ks))))) - 1
      \<and> 0 \<le> rowIndex (session_of (main_loop slices init_session szs ks))
      \<and> rowIndex (session_of (main_loop slices init_session szs ks)) < int (length slices)"
  proof (intro impI)
    assume ne: "\<forall>r \<in> set slices. r \<noteq> []" and s: "slices \<noteq> []"
    then have "slices ! 0 \<noteq> []" by (cases slices) auto
    with s have inv: "0 \<le> colIndex init_session"
      "colIndex init_session \<le> int (length (slices ! nat (rowIndex init_session))) - 1"
      "0 \<le> rowIndex init_session" "rowIndex init_session < int (length slices)"
      by (simp_all add: init_session_def Suc_le_eq)
    show "0 \<le> colIndex (session_of (main_loop slices init_session szs ks))
      \<and> colIndex (session_of (main_loop slices init_session szs ks))
          \<le> int (length (slices ! nat (rowIndex (session_of (main_loop slices init_session szs ks))))) - 1
      \<and> 0 \<le> rowIndex (session_of (main_loop slices init_session szs ks))
      \<and> rowIndex (session_of (main_loop slices init_session szs ks)) < int (length slices)"
      by (rule main_loop_col_range [OF ne inv])
  qed
qed

theorem column_clamped_after_transition_witness:
  "list_all (\<lambda>r. r \<noteq> []) [[0x41, 0x42 :: byte]]
   \<and> 0 \<le> colIndex init_session
   \<and> continues (fst (frame [[0x41, 0x42]] init_session (Inr (80, 24)) [Inr KEY_RIGHT]))
   \<and> 0 \<le> colIndex (session_of (fst (frame [[0x41, 0x42]] init_session (Inr (80, 24)) [Inr KEY_RIGHT])))
   \<and> colIndex (session_of (fst (frame [[0x41, 0x42]] init_session (Inr (80, 24)) [Inr KEY_RIGHT]))) \<le> 1
   \<and> waiting (main_loop [[0x41, 0x42]] (init_session\<lparr>colIndex := 1\<rparr>)
        (map Inr [(80, 24), (80, 24), (80, 24)]) (replicate 3 (Inr KEY_RIGHT)))
   \<and> colIndex (session_of (main_loop [[0x41, 0x42]] (init_session\<lparr>colIndex := 1\<rparr>)
        (map Inr [(80, 24), (80, 24), (80, 24)]) (replicate 3 (Inr KEY_RIGHT)))) = 1"
proof -
  let ?slices = "[[0x41, 0x42 :: byte]]"
  let ?x = "frame ?slices init_session (Inr (80, 24)) [Inr KEY_RIGHT]"
  let ?t = "init_session\<lparr>colIndex := 1\<rparr>"
  let ?whs = "[(80, 24), (80, 24), (80, 24)] :: (int \<times> int) list"
  have ne: "\<forall>r \<in> set ?slices. r \<noteq> []" by simp
  have c0: "0 \<le> colIndex init_session" by (simp add: init_session_def)
  have cont: "continues (fst ?x)" by code_simp
  then have x: "?x = (Continue (session_of (fst ?x)), snd ?x)"
    by (rule step_continuesD)
  have r: "rowIndex (session_of (fst ?x)) = 0" by code_simp
  note T = column_clamped_after_transition
  from T [THEN conjunct1, THEN mp, OF ne, THEN mp, OF c0, THEN mp, OF x] r
  have A: "0 \<le> colIndex (session_of (fst ?x))" "colIndex (session_of (fst ?x)) \<le> 1"
    by simp_all
  have k: "KEY_RIGHT = ''l'' \<or> KEY_RIGHT = KEY_RIGHT \<or> KEY_RIGHT = KEY_CTRL_F" by simp
  have t: "0 \<le> startRow ?t" "0 \<le> rowIndex ?t" "rowIndex ?t < int (length ?slices)"
    "colIndex ?t = int (length (?slices ! nat (rowIndex ?t))) - 1"
    by (simp_all add: init_session_def)
  from T [where ch = KEY_RIGHT and t = ?t and slices = ?slices and whs = ?whs,
      THEN conjunct2, THEN conjunct1, rule_format, OF k t]
  obtain t' where m: "main_loop ?slices ?t (map Inr ?whs) (replicate (length ?whs) (Inr KEY_RIGHT)) = Blocked t'"
    and c: "colIndex t' = int (length (?slices ! nat (rowIndex ?t))) - 1"
    by blast
  have l3: "replicate (length ?whs) (Inr KEY_RIGHT :: key_res) = replicate 3 (Inr KEY_RIGHT)"
    by (simp add: numeral_3_eq_3)
  from m have B: "waiting (main_loop ?slices ?t (map Inr ?whs) (replicate 3 (Inr KEY_RIGHT)))"
    unfolding l3 by (simp only: waiting_def step.case)
  from m c have C: "colIndex (session_of (main_loop ?slices ?t (map Inr ?whs) (replicate 3 (Inr KEY_RIGHT)))) = 1"
    unfolding l3 by (simp add: session_of_def init_session_def)
  have L: "list_all (\<lambda>r. r \<noteq> []) ?slices" by simp
  show ?thesis
    by (rule conjI [OF L conjI [OF c0 conjI [OF cont conjI [OF A(1) conjI [OF A(2) conjI [OF B C]]]]]])
qed

text \<open>
  C6. Amended. After every pass through the loop body that goes on to the next key, the
  start row is set by the rule: if row < startRow then startRow becomes row, and if
  row \<ge> startRow + heightInRows then startRow becomes row - heightInRows + 1, where
  heightInRows is the screen height minus one. Whenever heightInRows is at least 1, the
  result satisfies startRow \<le> row < startRow + heightInRows. When heightInRows is 0
  or less, the result does not satisfy it: the start row becomes row if row was above
  the old start row, and row - heightInRows + 1, which is below the cursor row, otherwise.
\<close>

theorem viewport_follows_cursor:
  "frame slices s (Inr (w, h)) keys = (Continue s', keys') \<longrightarrow>
     startRow s' =
       (if rowIndex s' < startRow s then rowIndex s'
        else if rowIndex s' \<ge> startRow s + (h - 1) then rowIndex s' - (h - 1) + 1
        else startRow s)
     \<and> (1 \<le> h - 1 \<longrightarrow> startRow s' \<le> rowIndex s' \<and> rowIndex s' < startRow s' + (h - 1))
     \<and> (h - 1 \<le> 0 \<longrightarrow>
          \<not> (startRow s' \<le> rowIndex s' \<and> rowIndex s' < startRow s' + (h - 1))
          \<and> startRow s' =
              (if rowIndex s' < startRow s then rowIndex s' else rowIndex s' - (h - 1) + 1)
          \<and> (startRow s \<le> rowIndex s' \<longrightarrow> rowIndex s' < startRow s'))"
proof (intro impI)
  assume "frame slices s (Inr (w, h)) keys = (Continue s', keys')"
  then obtain w' h' s2 where sz: "(Inr (w, h) :: size_res) = Inr (w', h')"
    and r: "rowIndex s' = rowIndex s2" and st: "startRow s2 = startRow s"
    and s': "startRow s' = startRow (scroll h' s2)"
    by (rule frame_nav)
  from sz have "h' = h" by simp
  with r st s' have eq: "startRow s' =
       (if rowIndex s' < startRow s then rowIndex s'
        else if rowIndex s' \<ge> startRow s + (h - 1) then rowIndex s' - (h - 1) + 1
        else startRow s)"
    by (simp add: scroll_startRow)
  then have inv: "1 \<le> h - 1 \<longrightarrow> startRow s' \<le> rowIndex s' \<and> rowIndex s' < startRow s' + (h - 1)"
    by (simp split: if_splits)
  have none: "h - 1 \<le> 0 \<longrightarrow>
          \<not> (startRow s' \<le> rowIndex s' \<and> rowIndex s' < startRow s' + (h - 1))
          \<and> startRow s' =
              (if rowIndex s' < startRow s then rowIndex s' else rowIndex s' - (h - 1) + 1)
          \<and> (startRow s \<le> rowIndex s' \<longrightarrow> rowIndex s' < startRow s')"
  proof
    assume z: "h - 1 \<le> 0"
    have a: "\<not> (startRow s' \<le> rowIndex s' \<and> rowIndex s' < startRow s' + (h - 1))"
      using z by linarith
    have b: "startRow s' =
        (if rowIndex s' < startRow s then rowIndex s' else rowIndex s' - (h - 1) + 1)"
    proof (cases "rowIndex s' < startRow s")
      case True
      with eq show ?thesis by simp
    next
      case False
      with z have "rowIndex s' \<ge> startRow s + (h - 1)" by linarith
      with False eq show ?thesis by simp
    qed
    have c: "startRow s \<le> rowIndex s' \<longrightarrow> rowIndex s' < startRow s'"
      using b z by (simp split: if_splits)
    from a b c show "\<not> (startRow s' \<le> rowIndex s' \<and> rowIndex s' < startRow s' + (h - 1))
          \<and> startRow s' =
              (if rowIndex s' < startRow s then rowIndex s' else rowIndex s' - (h - 1) + 1)
          \<and> (startRow s \<le> rowIndex s' \<longrightarrow> rowIndex s' < startRow s')"
      by (intro conjI)
  qed
  show "startRow s' =
       (if rowIndex s' < startRow s then rowIndex s'
        else if rowIndex s' \<ge> startRow s + (h - 1) then rowIndex s' - (h - 1) + 1
        else startRow s)
     \<and> (1 \<le> h - 1 \<longrightarrow> startRow s' \<le> rowIndex s' \<and> rowIndex s' < startRow s' + (h - 1))
     \<and> (h - 1 \<le> 0 \<longrightarrow>
          \<not> (startRow s' \<le> rowIndex s' \<and> rowIndex s' < startRow s' + (h - 1))
          \<and> startRow s' =
              (if rowIndex s' < startRow s then rowIndex s' else rowIndex s' - (h - 1) + 1)
          \<and> (startRow s \<le> rowIndex s' \<longrightarrow> rowIndex s' < startRow s'))"
    by (rule conjI [OF eq conjI [OF inv none]])
qed

theorem viewport_follows_cursor_witness:
  "continues (fst (frame [[0x41], [0x42], [0x43]] init_session (Inr (80, 2)) [Inr ''j'']))
   \<and> (1 :: int) \<le> 2 - 1
   \<and> rowIndex (session_of (fst (frame [[0x41], [0x42], [0x43]] init_session (Inr (80, 2)) [Inr ''j'']))) = 1
   \<and> startRow (session_of (fst (frame [[0x41], [0x42], [0x43]] init_session (Inr (80, 2)) [Inr ''j'']))) = 1
   \<and> startRow (session_of (fst (frame [[0x41], [0x42], [0x43]] init_session (Inr (80, 2)) [Inr ''j'']))) \<le> rowIndex (session_of (fst (frame [[0x41], [0x42], [0x43]] init_session (Inr (80, 2)) [Inr ''j''])))
   \<and> rowIndex (session_of (fst (frame [[0x41], [0x42], [0x43]] init_session (Inr (80, 2)) [Inr ''j'']))) < startRow (session_of (fst (frame [[0x41], [0x42], [0x43]] init_session (Inr (80, 2)) [Inr ''j'']))) + (2 - 1)
   \<and> continues (fst (frame [[0x41], [0x42]] init_session (Inr (80, 1)) [Inr ''j'']))
   \<and> (1 :: int) - 1 \<le> 0
   \<and> rowIndex (session_of (fst (frame [[0x41], [0x42]] init_session (Inr (80, 1)) [Inr ''j'']))) = 1
   \<and> startRow (session_of (fst (frame [[0x41], [0x42]] init_session (Inr (80, 1)) [Inr ''j'']))) = 2
   \<and> rowIndex (session_of (fst (frame [[0x41], [0x42]] init_session (Inr (80, 1)) [Inr ''j'']))) < startRow (session_of (fst (frame [[0x41], [0x42]] init_session (Inr (80, 1)) [Inr ''j''])))"
proof -
  let ?x = "frame [[0x41], [0x42], [0x43]] init_session (Inr (80, 2)) [Inr ''j'']"
  have cont: "continues (fst ?x)" by code_simp
  then have x: "?x = (Continue (session_of (fst ?x)), snd ?x)"
    by (rule step_continuesD)
  have h: "(1 :: int) \<le> 2 - 1" by simp
  have r: "rowIndex (session_of (fst ?x)) = 1" by code_simp
  note T = viewport_follows_cursor [THEN mp, OF x]
  from T [THEN conjunct1] r have st: "startRow (session_of (fst ?x)) = 1"
    by (simp add: init_session_def)
  note I = T [THEN conjunct2, THEN conjunct1, THEN mp, OF h]
  let ?y = "frame [[0x41], [0x42]] init_session (Inr (80, 1)) [Inr ''j'']"
  have conty: "continues (fst ?y)" by code_simp
  then have y: "?y = (Continue (session_of (fst ?y)), snd ?y)"
    by (rule step_continuesD)
  have z: "(1 :: int) - 1 \<le> 0" by simp
  have ry: "rowIndex (session_of (fst ?y)) = 1" by code_simp
  note U = viewport_follows_cursor [THEN mp, OF y, THEN conjunct2, THEN conjunct2, THEN mp, OF z]
  from U [THEN conjunct2, THEN conjunct1] ry have sty: "startRow (session_of (fst ?y)) = 2"
    by (simp add: init_session_def)
  have "startRow init_session \<le> rowIndex (session_of (fst ?y))"
    using ry by (simp add: init_session_def)
  with U [THEN conjunct2, THEN conjunct2]
  have below: "rowIndex (session_of (fst ?y)) < startRow (session_of (fst ?y))"
    by (rule mp)
  show ?thesis
    by (rule conjI [OF cont conjI [OF h conjI [OF r conjI [OF st conjI [OF I [THEN conjunct1]
          conjI [OF I [THEN conjunct2] conjI [OF conty conjI [OF z conjI [OF ry
          conjI [OF sty below]]]]]]]]]])
qed

theorem viewport_invariant_counterexample:
  "continues (fst (frame [[0x41], [0x42]] init_session (Inr (80, 1)) [Inr ''j'']))
   \<and> position (Continue init_session) = (0, 0, 0)
   \<and> position (fst (frame [[0x41], [0x42]] init_session (Inr (80, 1)) [Inr ''j''])) = (1, 0, 2)
   \<and> \<not> (startRow (session_of (fst (frame [[0x41], [0x42]] init_session (Inr (80, 1)) [Inr ''j'']))) \<le> rowIndex (session_of (fst (frame [[0x41], [0x42]] init_session (Inr (80, 1)) [Inr ''j''])))
          \<and> rowIndex (session_of (fst (frame [[0x41], [0x42]] init_session (Inr (80, 1)) [Inr ''j'']))) < startRow (session_of (fst (frame [[0x41], [0x42]] init_session (Inr (80, 1)) [Inr ''j'']))) + (1 - 1))"
  by code_simp

text \<open>
  C8. Amended. In a session whose cursor is on a byte of the dataset, "q" or escape
  followed by any answer other than "y" leaves the cursor row and column unchanged and
  goes on to the next key; the start row is then adjusted by the scroll rule as after
  every key, so it is unchanged whenever the cursor row is inside the window for the
  current screen height. "q" or escape followed by "y" returns from the loop with no error.
\<close>

theorem unconfirmed_quit_keeps_cursor:
  assumes ch: "ch = ''q'' \<or> ch = KEY_ESC"
    and s: "0 \<le> startRow s" "0 \<le> rowIndex s" "rowIndex s < int (length slices)"
      "colIndex s < int (length (slices ! nat (rowIndex s)))"
  shows "(k \<noteq> Inr ''y'' \<longrightarrow>
           (\<exists>s'. frame slices s (Inr (w, h)) (Inr ch # k # keys) = (Continue s', keys)
              \<and> colIndex s' = colIndex s \<and> rowIndex s' = rowIndex s
              \<and> startRow s' = startRow (scroll h s)
              \<and> (startRow s \<le> rowIndex s \<and> rowIndex s < startRow s + (h - 1) \<longrightarrow>
                   startRow s' = startRow s)))
       \<and> (\<exists>s'. frame slices s (Inr (w, h)) (Inr ch # Inr ''y'' # keys) = (Return None s', keys)
              \<and> main_loop slices s (Inr (w, h) # szs) (Inr ch # Inr ''y'' # keys) = Return None s')"
proof -
  obtain lf s3 where f: "colIndex s3 = colIndex s" "rowIndex s3 = rowIndex s"
      "startRow s3 = startRow s"
    and k: "\<And>ch keys. frame slices s (Inr (w, h)) (Inr ch # keys) = on_key slices h lf ch s3 keys"
    using frame_reads_key [OF s(1)] by metis
  let ?s1 = "emit (ANSI_YELLOW @ [CHR 0x0D] @ ''Quit Sure ? [y/n]'' @ ERASE_LINE) s3"
  have cl: "clamp_col slices (emit msg s3) = Some (emit msg s3)" for msg
    using f s by (simp add: clamp_col_def row_at_def)
  let ?s' = "cursor_up lf (scroll h ?s1)"
  have st: "startRow ?s' = startRow (scroll h s)"
    using f by (simp add: scroll_startRow)
  have no: "frame slices s (Inr (w, h)) (Inr ch # k # keys) = (Continue ?s', keys)"
    if "k \<noteq> Inr ''y''"
    using that by (simp add: k on_key_quit [OF ch] after_switch_def cl)
  have yes: "frame slices s (Inr (w, h)) (Inr ch # Inr ''y'' # keys)
      = (Return None (emit [CHR 0x0A] ?s1), keys)"
    by (simp add: k on_key_quit [OF ch])
  have A: "k \<noteq> Inr ''y'' \<longrightarrow>
           (\<exists>s'. frame slices s (Inr (w, h)) (Inr ch # k # keys) = (Continue s', keys)
              \<and> colIndex s' = colIndex s \<and> rowIndex s' = rowIndex s
              \<and> startRow s' = startRow (scroll h s)
              \<and> (startRow s \<le> rowIndex s \<and> rowIndex s < startRow s + (h - 1) \<longrightarrow>
                   startRow s' = startRow s))"
  proof
    assume "k \<noteq> Inr ''y''"
    from no [OF this] f st show "\<exists>s'. frame slices s (Inr (w, h)) (Inr ch # k # keys) = (Continue s', keys)
              \<and> colIndex s' = colIndex s \<and> rowIndex s' = rowIndex s
              \<and> startRow s' = startRow (scroll h s)
              \<and> (startRow s \<le> rowIndex s \<and> rowIndex s < startRow s + (h - 1) \<longrightarrow>
                   startRow s' = startRow s)"
      by (intro exI [of _ ?s']) (simp add: scroll_startRow)
  qed
  from yes have B: "\<exists>s'. frame slices s (Inr (w, h)) (Inr ch # Inr ''y'' # keys) = (Return None s', keys)
              \<and> main_loop slices s (Inr (w, h) # szs) (Inr ch # Inr ''y'' # keys) = Return None s'"
    by (intro exI [of _ "emit [CHR 0x0A] ?s1"]) simp
  from A B show ?thesis by (rule conjI)
qed


theorem unconfirmed_quit_keeps_cursor_witness:
  "continues (fst (frame [[0x41]] init_session (Inr (80, 24)) [Inr ''q'', Inr ''n'']))
   \<and> colIndex (session_of (fst (frame [[0x41]] init_session (Inr (80, 24)) [Inr ''q'', Inr ''n'']))) = 0
   \<and> rowIndex (session_of (fst (frame [[0x41]] init_session (Inr (80, 24)) [Inr ''q'', Inr ''n'']))) = 0
   \<and> startRow (session_of (fst (frame [[0x41]] init_session (Inr (80, 24)) [Inr ''q'', Inr ''n'']))) = 0
   \<and> returned (main_loop [[0x41]] init_session [Inr (80, 24)] [Inr ''q'', Inr ''y'']) = Some None"
proof -
  let ?slices = "[[0x41 :: byte]]"
  have ch: "''q'' = ''q'' \<or> ''q'' = KEY_ESC" by simp
  have s: "0 \<le> startRow init_session" "0 \<le> rowIndex init_session"
    "rowIndex init_session < int (length ?slices)"
    "colIndex init_session < int (length (?slices ! nat (rowIndex init_session)))"
    by (simp_all add: init_session_def)
  have n: "(Inr ''n'' :: key_res) \<noteq> Inr ''y''" by simp
  have v: "startRow init_session \<le> rowIndex init_session
      \<and> rowIndex init_session < startRow init_session + (24 - 1)"
    by (simp add: init_session_def)
  note T = unconfirmed_quit_keeps_cursor [OF ch s, where k = "Inr ''n''" and w = 80 and h = 24
      and keys = "[]" and szs = "[]"]
  from T [THEN conjunct1, THEN mp, OF n] obtain s' where
    f: "frame ?slices init_session (Inr (80, 24)) [Inr ''q'', Inr ''n''] = (Continue s', [])"
    and c: "colIndex s' = colIndex init_session" and r: "rowIndex s' = rowIndex init_session"
    and st: "startRow init_session \<le> rowIndex init_session
      \<and> rowIndex init_session < startRow init_session + (24 - 1) \<longrightarrow>
        startRow s' = startRow init_session"
    by blast
  from st v have st': "startRow s' = startRow init_session" by (rule mp)
  from T [THEN conjunct2] obtain s'' where
    m: "main_loop ?slices init_session [Inr (80, 24)] [Inr ''q'', Inr ''y''] = Return None s''"
    by blast
  have A: "continues (fst (frame ?slices init_session (Inr (80, 24)) [Inr ''q'', Inr ''n'']))"
    unfolding f by (simp add: continues_def)
  have B: "colIndex (session_of (fst (frame ?slices init_session (Inr (80, 24)) [Inr ''q'', Inr ''n'']))) = 0"
    unfolding f using c by (simp add: session_of_def init_session_def)
  have C: "rowIndex (session_of (fst (frame ?slices init_session (Inr (80, 24)) [Inr ''q'', Inr ''n'']))) = 0"
    unfolding f using r by (simp add: session_of_def init_session_def)
  have D: "startRow (session_of (fst (frame ?slices init_session (Inr (80, 24)) [Inr ''q'', Inr ''n'']))) = 0"
    unfolding f using st' by (simp add: session_of_def init_session_def)
  have E: "returned (main_loop ?slices init_session [Inr (80, 24)] [Inr ''q'', Inr ''y'']) = Some None"
    unfolding m by (simp add: returned_def)
  show ?thesis
    by (rule conjI [OF A conjI [OF B conjI [OF C conjI [OF D E]]]])
qed

theorem unconfirmed_quit_scrolls_counterexample:
  "waiting (main1 None
         [\<lparr>n = 1, buf = [0x41], rerr = None\<rparr>, \<lparr>n = 1, buf = [0x42], rerr = Some EOF\<rparr>]
         None [Inr (80, 3), Inr (80, 2)] [Inr ''j''])
   \<and> position (main1 None
         [\<lparr>n = 1, buf = [0x41], rerr = None\<rparr>, \<lparr>n = 1, buf = [0x42], rerr = Some EOF\<rparr>]
         None [Inr (80, 3), Inr (80, 2)] [Inr ''j'']) = (1, 0, 0)
   \<and> waiting (main1 None
         [\<lparr>n = 1, buf = [0x41], rerr = None\<rparr>, \<lparr>n = 1, buf = [0x42], rerr = Some EOF\<rparr>]
         None [Inr (80, 3), Inr (80, 2), Inr (80, 2)] [Inr ''j'', Inr ''q'', Inr ''n''])
   \<and> position (main1 None
         [\<lparr>n = 1, buf = [0x41], rerr = None\<rparr>, \<lparr>n = 1, buf = [0x42], rerr = Some EOF\<rparr>]
         None [Inr (80, 3), Inr (80, 2), Inr (80, 2)] [Inr ''j'', Inr ''q'', Inr ''n'']) = (1, 0, 1)"
  by code_simp

text \<open>
  C4. Amended. An error of the terminal-size query, or of the key read at the top of a
  pass, makes the loop return that error at once, and \<open>main1\<close> returns it to the top
  level. An error of the quit-confirmation read is not returned: it counts as an answer
  other than "y" and the loop goes on to the next key.
\<close>

theorem size_and_key_errors_abort:
  "main_loop slices s (Inl e # szs) keys = Return (Some e) s
   \<and> (0 \<le> startRow s \<longrightarrow>
        (\<exists>s'. main_loop slices s (Inr (w, h) # szs) (Inl e # keys) = Return (Some e) s'))
   \<and> (load_loop reads [] = Some (Inr slices) \<longrightarrow> slices \<noteq> [] \<longrightarrow>
        returned (main1 None reads None (Inl e # szs) keys) = Some (Some e)
        \<and> returned (main1 None reads None (Inr (w, h) # szs) (Inl e # keys)) = Some (Some e))
   \<and> ((ch = ''q'' \<or> ch = KEY_ESC) \<longrightarrow>
        0 \<le> startRow s \<longrightarrow> 0 \<le> rowIndex s \<longrightarrow> rowIndex s < int (length slices) \<longrightarrow>
        (\<exists>s'. frame slices s (Inr (w, h)) (Inr ch # Inl e # keys) = (Continue s', keys)))"
proof -
  have A: "main_loop slices t (Inl e # szs) keys = Return (Some e) t" for t
    by (simp add: frame_def)
  have B: "\<exists>s'. main_loop slices t (Inr (w, h) # szs) (Inl e # keys) = Return (Some e) s'"
    if st: "0 \<le> startRow t" for t
  proof -
    obtain lf s3 where
      "\<And>e keys. frame slices t (Inr (w, h)) (Inl e # keys) = (Return (Some e) s3, keys)"
      using frame_reads_key [OF st] by metis
    then show ?thesis by simp
  qed
  have C: "returned (main1 None reads None (Inl e # szs) keys) = Some (Some e)
        \<and> returned (main1 None reads None (Inr (w, h) # szs) (Inl e # keys)) = Some (Some e)"
    if l: "load_loop reads [] = Some (Inr slices)" and ne: "slices \<noteq> []"
  proof -
    have "0 \<le> startRow init_session" by (simp add: init_session_def)
    from B [OF this] obtain s' where
      "main_loop slices init_session (Inr (w, h) # szs) (Inl e # keys) = Return (Some e) s'"
      by blast
    with l ne A [of init_session] show ?thesis
      by (simp add: main1_def returned_deferred) (simp add: returned_def)
  qed
  have D: "\<exists>s'. frame slices s (Inr (w, h)) (Inr ch # Inl e # keys) = (Continue s', keys)"
    if ch: "ch = ''q'' \<or> ch = KEY_ESC"
      and s: "0 \<le> startRow s" "0 \<le> rowIndex s" "rowIndex s < int (length slices)"
  proof -
    obtain lf s3 where f: "rowIndex s3 = rowIndex s"
      and k: "\<And>ch keys. frame slices s (Inr (w, h)) (Inr ch # keys) = on_key slices h lf ch s3 keys"
      using frame_reads_key [OF s(1)] by metis
    have "\<exists>s2. clamp_col slices (emit msg s3) = Some s2" for msg
      using f s by (simp add: clamp_col_def row_at_def)
    then show ?thesis
      by (simp add: k on_key_quit [OF ch] after_switch_def split: option.splits)
  qed
  from A [of s] B C D show ?thesis by blast
qed

theorem size_and_key_errors_abort_witness:
  "returned (main_loop [[0x41]] init_session [Inl (Failure ''size'')] [Inr ''j''])
      = Some (Some (Failure ''size''))
   \<and> returned (main_loop [[0x41]] init_session [Inr (80, 24)] [Inl (Failure ''key'')])
      = Some (Some (Failure ''key''))
   \<and> returned (main1 None [\<lparr>n = 1, buf = [0x41], rerr = Some EOF\<rparr>] None
        [Inr (80, 24)] [Inl (Failure ''key'')]) = Some (Some (Failure ''key''))
   \<and> continues (fst (frame [[0x41]] init_session (Inr (80, 24)) [Inr ''q'', Inl (Failure ''key'')]))"
proof -
  let ?slices = "[[0x41 :: byte]]"
  let ?reads = "[\<lparr>n = 1, buf = [0x41], rerr = Some EOF\<rparr>]"
  note T = size_and_key_errors_abort [where slices = ?slices and s = init_session
      and w = 80 and h = 24 and reads = ?reads and ch = "''q''"]
  have s: "0 \<le> startRow init_session" "0 \<le> rowIndex init_session"
    "rowIndex init_session < int (length ?slices)"
    by (simp_all add: init_session_def)
  have l: "load_loop ?reads [] = Some (Inr ?slices)" by code_simp
  have ne: "?slices \<noteq> []" by simp
  have ch: "''q'' = ''q'' \<or> ''q'' = KEY_ESC" by simp
  have A: "returned (main_loop ?slices init_session [Inl (Failure ''size'')] [Inr ''j''])
      = Some (Some (Failure ''size''))"
    by (simp only: T [THEN conjunct1] returned_def step.case)
  from T [where e = "Failure ''key''" and szs = "[]" and keys = "[]",
      THEN conjunct2, THEN conjunct1, THEN mp, OF s(1)]
  obtain s' where "main_loop ?slices init_session [Inr (80, 24)] [Inl (Failure ''key'')]
      = Return (Some (Failure ''key'')) s'"
    by blast
  then have B: "returned (main_loop ?slices init_session [Inr (80, 24)] [Inl (Failure ''key'')])
      = Some (Some (Failure ''key''))"
    by (simp only: returned_def step.case)
  note C = T [where e = "Failure ''key''" and szs = "[]" and keys = "[]",
      THEN conjunct2, THEN conjunct2, THEN conjunct1, THEN mp, OF l, THEN mp, OF ne, THEN conjunct2]
  from T [where e = "Failure ''key''" and keys = "[]",
      THEN conjunct2, THEN conjunct2, THEN conjunct2, THEN mp, OF ch, THEN mp, OF s(1),
      THEN mp, OF s(2), THEN mp, OF s(3)]
  obtain s'' where "frame ?slices init_session (Inr (80, 24)) [Inr ''q'', Inl (Failure ''key'')]
      = (Continue s'', [])"
    by blast
  then have D: "continues (fst (frame ?slices init_session (Inr (80, 24)) [Inr ''q'', Inl (Failure ''key'')]))"
    by (simp add: continues_def)
  show ?thesis
    by (rule conjI [OF A conjI [OF B conjI [OF C D]]])
qed

theorem confirm_read_error_counterexample:
  "waiting (main1 None [\<lparr>n = 1, buf = [0x41], rerr = Some EOF\<rparr>] None
      [Inr (80, 24), Inr (80, 24)] [Inr ''q'', Inl (Failure ''key'')])
   \<and> returned (main1 None [\<lparr>n = 1, buf = [0x41], rerr = Some EOF\<rparr>] None
      [Inr (80, 24), Inr (80, 24)] [Inr ''q'', Inl (Failure ''key'')]) = None"
  by code_simp

text \<open>
  C3. Amended. For a record of N bytes, 1 \<le> N \<le> 16, the visible text of the line
  is the address, one blank, N groups of two hex digits and a blank, 16 - N blank slots
  of three columns, and then the character panel. The hex panel is 48 columns wide for
  every such N, so the character panel starts in the same column (column 57 for an
  address below 2^32). For the empty record the line has one more blank.
\<close>

theorem hex_panel_groups_and_padding:
  assumes "1 \<le> length slc" "length slc \<le> 16"
  shows "visible (draw address cursorPos slc) =
           fmt_08X address @ '' '' @ concat (map (\<lambda>x. fmt_02X x @ '' '') slc)
           @ replicate (3 * (16 - length slc)) CHR '' ''
           @ visible (char_loop cursorPos slc 0 @ ERASE_LINE)
       \<and> visible (draw_hex address cursorPos slc) =
           fmt_08X address @ '' '' @ concat (map (\<lambda>x. fmt_02X x @ '' '') slc)
           @ replicate (3 * (16 - length slc)) CHR '' ''
       \<and> length (fmt_02X x) = 2
       \<and> length (concat (map (\<lambda>x. fmt_02X x @ '' '') slc)) = 3 * length slc
       \<and> length (visible (draw_hex address cursorPos slc)) = length (fmt_08X address) + 49
       \<and> (0 \<le> address \<and> address < 2 ^ 32 \<longrightarrow>
            length (visible (draw_hex address cursorPos slc)) = 57)
       \<and> length (visible (draw_hex address cursorPos [])) = length (fmt_08X address) + 50"
proof -
  from assms have ne: "slc \<noteq> []" by auto
  have A: "visible (draw address cursorPos slc) =
           fmt_08X address @ '' '' @ concat (map (\<lambda>x. fmt_02X x @ '' '') slc)
           @ replicate (3 * (16 - length slc)) CHR '' ''
           @ visible (char_loop cursorPos slc 0 @ ERASE_LINE)"
    unfolding visible_def draw_def by (rule vis_draw_prefix [OF ne])
  have B: "visible (draw_hex address cursorPos slc) =
           fmt_08X address @ '' '' @ concat (map (\<lambda>x. fmt_02X x @ '' '') slc)
           @ replicate (3 * (16 - length slc)) CHR '' ''"
    using vis_draw_prefix [OF ne, of address cursorPos "[]"] by (simp add: visible_def)
  have C: "length (concat (map (\<lambda>x. fmt_02X x @ '' '') ys)) = 3 * length ys" for ys
    by (induction ys) (simp_all add: fmt_02X_length)
  from B C [of slc] assms
  have D: "length (visible (draw_hex address cursorPos slc)) = length (fmt_08X address) + 49"
    by simp
  have E: "0 \<le> address \<and> address < 2 ^ 32 \<longrightarrow>
            length (visible (draw_hex address cursorPos slc)) = 57"
    using D fmt_08X_length [of address] by simp
  have F: "length (visible (draw_hex address cursorPos [])) = length (fmt_08X address) + 50"
    using vis_draw_prefix_empty [of address cursorPos "[]"] by (simp add: visible_def)
  show ?thesis
    by (rule conjI [OF A conjI [OF B conjI [OF fmt_02X_length conjI [OF C conjI [OF D conjI [OF E F]]]]]])
qed

theorem hex_panel_groups_and_padding_witness:
  "(1 :: nat) \<le> length [0x41 :: byte] \<and> length [0x41 :: byte] \<le> 16
   \<and> visible (draw_hex 0 (- 1) [0x41]) = ''00000000 41 '' @ replicate 45 CHR '' ''
   \<and> length (visible (draw_hex 0 (- 1) [0x41])) = 57"
proof -
  have h: "1 \<le> length [0x41 :: byte]" "length [0x41 :: byte] \<le> 16" by simp_all
  note T = hex_panel_groups_and_padding [OF h, of 0 "- 1"]
  have f: "fmt_08X 0 = ''00000000''" "fmt_02X 0x41 = ''41''" by code_simp+
  from T [THEN conjunct2, THEN conjunct1]
  have A: "visible (draw_hex 0 (- 1) [0x41]) = ''00000000 41 '' @ replicate 45 CHR '' ''"
    by (simp add: f)
  have r: "(0 :: int) \<le> 0 \<and> (0 :: int) < 2 ^ 32" by simp
  note B = T [THEN conjunct2, THEN conjunct2, THEN conjunct2, THEN conjunct2, THEN conjunct2,
      THEN conjunct1, THEN mp, OF r]
  show ?thesis
    by (rule conjI [OF h(1) conjI [OF h(2) conjI [OF A B]]])
qed

theorem empty_record_panel_counterexample:
  "length (visible (draw_hex 0 (- 1) [])) = 58
   \<and> length (visible (draw_hex 0 (- 1) [0x41])) = 57
   \<and> visible (draw_hex 0 (- 1) []) = ''00000000  '' @ replicate 48 CHR '' ''"
  by code_simp

text \<open>
  C2. Amended. Let position i of a record hold a lead byte in C2..DF and not be the last
  position. The scan of the character panel arrives at i. If the next byte is a
  continuation byte (80..BF) and the sequence ends before the last byte of the record,
  the two bytes are written verbatim as one glyph under one attribute (the cursor
  attribute when the cursor is on either byte) and the scan goes on at i + 2. If the
  next byte is not a continuation byte, the lead byte alone is drawn as the placeholder
  and the scan goes on at i + 1, where the next byte is classified on its own: a
  printable byte that is not the last one is written verbatim.
\<close>

theorem two_byte_sequence_rendering:
  assumes "0xC2 \<le> slc ! i" "slc ! i \<le> 0xDF" "i + 1 < length slc"
  shows "(\<exists>pre. char_loop cursorPos slc 0 = pre @ char_loop cursorPos slc i)
    \<and> (0x80 \<le> slc ! (i + 1) \<and> slc ! (i + 1) \<le> 0xBF \<and> i + 2 < length slc \<longrightarrow>
         char_loop cursorPos slc i =
           (if int i \<le> cursorPos \<and> cursorPos < int i + 2 then CURSOR_COLOR else CELL1_COLOR)
           @ [byte_char (slc ! i), byte_char (slc ! (i + 1))]
           @ char_loop cursorPos slc (i + 2))
    \<and> (slc ! (i + 1) < 0x80 \<or> slc ! (i + 1) > 0xBF \<longrightarrow>
         char_loop cursorPos slc i =
           (if int i = cursorPos then CURSOR_COLOR else CELL1_COLOR) @ ''.''
           @ char_loop cursorPos slc (i + 1))
    \<and> (0x20 \<le> slc ! (i + 1) \<and> slc ! (i + 1) \<le> 0x7E \<and> i + 2 < length slc \<longrightarrow>
         char_loop cursorPos slc i =
           (if int i = cursorPos then CURSOR_COLOR else CELL1_COLOR) @ ''.''
           @ (if int (i + 1) = cursorPos then CURSOR_COLOR else CELL1_COLOR)
           @ [byte_char (slc ! (i + 1))]
           @ char_loop cursorPos slc (i + 2))"
proof -
  from assms(3) have i: "i < length slc" "Suc i < length slc" by simp_all
  have nc: "\<not> (0x80 \<le> slc ! i \<and> slc ! i \<le> 0xBF)"
  proof -
    from assms(1) have "\<not> slc ! i \<le> 0xBF" by (simp add: word_le_nat_alt)
    then show ?thesis by simp
  qed
  have A: "\<exists>pre. char_loop cursorPos slc 0 = pre @ char_loop cursorPos slc i"
    by (rule scan_reaches [OF _ i(1) nc]) simp
  have B: "char_loop cursorPos slc i =
           (if int i \<le> cursorPos \<and> cursorPos < int i + 2 then CURSOR_COLOR else CELL1_COLOR)
           @ [byte_char (slc ! i), byte_char (slc ! (i + 1))]
           @ char_loop cursorPos slc (i + 2)"
    if v: "0x80 \<le> slc ! (i + 1) \<and> slc ! (i + 1) \<le> 0xBF \<and> i + 2 < length slc"
  proof -
    from v assms have "seq_length slc i = 2"
      by (intro seq_length_two_valid) simp_all
    from char_loop_two [OF i(2) this] show ?thesis by simp
  qed
  have C: "char_loop cursorPos slc i =
           (if int i = cursorPos then CURSOR_COLOR else CELL1_COLOR) @ ''.''
           @ char_loop cursorPos slc (i + 1)"
    if v: "slc ! (i + 1) < 0x80 \<or> slc ! (i + 1) > 0xBF"
  proof -
    from v assms have "seq_length slc i = 0"
      by (intro seq_length_two_invalid) simp_all
    from char_loop_invalid [OF i(1) this] show ?thesis by simp
  qed
  have D: "char_loop cursorPos slc i =
           (if int i = cursorPos then CURSOR_COLOR else CELL1_COLOR) @ ''.''
           @ (if int (i + 1) = cursorPos then CURSOR_COLOR else CELL1_COLOR)
           @ [byte_char (slc ! (i + 1))]
           @ char_loop cursorPos slc (i + 2)"
    if v: "0x20 \<le> slc ! (i + 1) \<and> slc ! (i + 1) \<le> 0x7E \<and> i + 2 < length slc"
  proof -
    from v have "slc ! (i + 1) < 0x80" by (simp add: word_le_nat_alt word_less_nat_alt)
    then have c: "char_loop cursorPos slc i =
           (if int i = cursorPos then CURSOR_COLOR else CELL1_COLOR) @ ''.''
           @ char_loop cursorPos slc (i + 1)"
      by (intro C) simp
    from v have "seq_length slc (Suc i) = 1"
      by (intro seq_length_printable) simp_all
    from char_loop_one [OF i(2) this, of cursorPos] c show ?thesis by simp
  qed
  from A B C D show ?thesis by blast
qed


theorem two_byte_sequence_rendering_witness:
  "(0xC2 :: byte) \<le> [0xC3, 0xA9, 0x41] ! 0 \<and> [0xC3, 0xA9, 0x41 :: byte] ! 0 \<le> 0xDF
   \<and> (0 :: nat) + 1 < length [0xC3, 0xA9, 0x41 :: byte]
   \<and> char_loop (- 1) [0xC3, 0xA9, 0x41] 0 =
        CELL1_COLOR @ [byte_char 0xC3, byte_char 0xA9] @ char_loop (- 1) [0xC3, 0xA9, 0x41] 2
   \<and> char_loop (- 1) [0xC3, 0x41, 0x42] 0 =
        CELL1_COLOR @ ''.'' @ CELL1_COLOR @ [byte_char 0x41] @ char_loop (- 1) [0xC3, 0x41, 0x42] 2"
proof -
  let ?a = "[0xC3, 0xA9, 0x41 :: byte]"
  let ?b = "[0xC3, 0x41, 0x42 :: byte]"
  have ha: "(0xC2 :: byte) \<le> ?a ! 0" "?a ! 0 \<le> 0xDF" "(0 :: nat) + 1 < length ?a"
    by simp_all
  have hb: "(0xC2 :: byte) \<le> ?b ! 0" "?b ! 0 \<le> 0xDF" "(0 :: nat) + 1 < length ?b"
    by simp_all
  have va: "0x80 \<le> ?a ! (0 + 1) \<and> ?a ! (0 + 1) \<le> 0xBF \<and> 0 + 2 < length ?a"
    by simp
  have vb: "0x20 \<le> ?b ! (0 + 1) \<and> ?b ! (0 + 1) \<le> 0x7E \<and> 0 + 2 < length ?b"
    by simp
  from two_byte_sequence_rendering [OF ha, of "- 1", THEN conjunct2, THEN conjunct1, THEN mp, OF va]
  have A: "char_loop (- 1) ?a 0 =
        CELL1_COLOR @ [byte_char 0xC3, byte_char 0xA9] @ char_loop (- 1) ?a 2"
    by (simp add: numeral_2_eq_2)
  from two_byte_sequence_rendering [OF hb, of "- 1", THEN conjunct2, THEN conjunct2,
      THEN conjunct2, THEN mp, OF vb]
  have B: "char_loop (- 1) ?b 0 =
        CELL1_COLOR @ ''.'' @ CELL1_COLOR @ [byte_char 0x41] @ char_loop (- 1) ?b 2"
    by (simp add: numeral_2_eq_2)
  show ?thesis
    by (rule conjI [OF ha(1) conjI [OF ha(2) conjI [OF ha(3) conjI [OF A B]]]])
qed

theorem invalid_continuation_counterexample:
  "char_loop (- 1) [0xC3, 0x41, 0x42] 0 =
     CELL1_COLOR @ ''.'' @ CELL1_COLOR @ ''A'' @ CELL1_COLOR @ ''.''
   \<and> visible (char_loop (- 1) [0xC3, 0x41, 0x42] 0) = ''.A.''"
  by code_simp



end
